theory Spec2Isabelle
  imports Main "HOL-Library.Log_Nat"
begin

section \<open>Data model of the keyword service\<close>

text \<open>
  The backend service \<open>KeywordService\<close> validates its input and then reads and writes three
  tables through the ORM client: campaigns, ad groups and keywords. The frontend slice
  \<open>keywordSlice\<close> keeps a local list of keywords and reacts to the outcome of the API calls.

  Identifiers are JavaScript numbers holding integers (\<open>int\<close>); a bid is a finite number
  (\<open>rat\<close>, so the non-numbers \<open>NaN\<close> and \<open>Infinity\<close>, which JSON cannot carry, are
  outside the type); an optional member of a DTO is an \<open>option\<close>. A JavaScript string is
  its list of UTF-16 code units.
\<close>

type_synonym jsstring = "nat list"

definition str :: "string \<Rightarrow> jsstring" where
  "str cs = map of_char cs"

datatype MatchType = BROAD | PHRASE | EXACT

datatype Status = ACTIVE | PAUSED | ARCHIVED

datatype error =
    ValidationError string
  | NotFoundError string
  | PrismaError string

record CreateKeywordDto =
  campaignId :: int
  adGroupId :: "int option"
  keywordText :: jsstring
  matchType :: MatchType
  bid :: rat
  isNegative :: "bool option"

record UpdateKeywordDto =
  keywordText :: "jsstring option"
  matchType :: "MatchType option"
  bid :: "rat option"
  status :: "Status option"
  isNegative :: "bool option"

record KeywordFilters =
  adGroupId :: "int option"
  matchType :: "MatchType option"
  status :: "Status option"
  isNegative :: "bool option"

text \<open>
  The object that \<open>getKeywordStats\<close> returns. The count of impressions is rendered by the
  BigInt's \<open>toString\<close>; \<open>spend\<close> and \<open>sales\<close> are kept as the decimals that the decimal
  library's \<open>toString\<close> renders.
\<close>

record KeywordStats =
  impressions :: string
  clicks :: int
  conversions :: int
  spend :: rat
  sales :: rat
  ctr :: string
  cvr :: string
  cpc :: string
  acos :: string

text \<open>
  Modelled from the spec: the ORM schema (the \<open>Campaign\<close>, \<open>AdGroup\<close> and \<open>Keyword\<close> models
  of \<open>@prisma/client\<close>) is not among the sources. The rows below carry the fields of the
  spec's data model: a campaign has a name, a budget and a status; an ad group has its
  campaign, a name, a default bid and a status; a keyword has the fields listed there, with
  \<open>impressions\<close> an arbitrary-precision integer, \<open>clicks\<close> and \<open>conversions\<close> integers and
  \<open>spend\<close> and \<open>sales\<close> decimals. Campaigns and ad groups are only ever read by primary key,
  so their tables are maps from the id; the keyword table is the list of its rows in order
  of creation, together with the last value of the id sequence.
\<close>

record Campaign =
  name :: jsstring
  budget :: rat
  status :: Status

record AdGroup =
  campaignId :: int
  name :: jsstring
  defaultBid :: rat
  status :: Status

record Keyword =
  id_kw :: int
  campaignId :: int
  adGroupId :: "int option"
  keywordText :: jsstring
  matchType :: MatchType
  bid :: rat
  status :: Status
  isNegative :: bool
  impressions :: int
  clicks :: int
  conversions :: int
  spend :: rat
  sales :: rat

record Store =
  campaignTable :: "int \<rightharpoonup> Campaign"
  adGroupTable :: "int \<rightharpoonup> AdGroup"
  keywordTable :: "Keyword list"
  keywordSeq :: int

subsection \<open>JavaScript primitives used by the service\<close>

text \<open>
  \<open>String.prototype.trim\<close> removes the code units of \<open>WhiteSpace\<close> and \<open>LineTerminator\<close>
  from both ends: TAB, LF, VT, FF, CR, SPACE, NBSP, U+1680, U+2000 to U+200A, U+2028,
  U+2029, U+202F, U+205F, U+3000 and U+FEFF.
\<close>

definition is_whitespace :: "nat \<Rightarrow> bool" where
  "is_whitespace c \<longleftrightarrow>
     (9 \<le> c \<and> c \<le> 13) \<or> c = 32 \<or> c = 160 \<or> c = 5760 \<or> (8192 \<le> c \<and> c \<le> 8202) \<or>
     c = 8232 \<or> c = 8233 \<or> c = 8239 \<or> c = 8287 \<or> c = 12288 \<or> c = 65279"

definition trim :: "jsstring \<Rightarrow> jsstring" where
  "trim t = rev (dropWhile is_whitespace (rev (dropWhile is_whitespace t)))"

text \<open>Truthiness of an optional boolean and of an optional number.\<close>

fun truthy_bool :: "bool option \<Rightarrow> bool" where
  "truthy_bool None = False"
| "truthy_bool (Some b) = b"

fun truthy_num :: "int option \<Rightarrow> bool" where
  "truthy_num None = False"
| "truthy_num (Some n) = (n \<noteq> 0)"

subsection \<open>The ORM operations on the keyword table\<close>

text \<open>
  Modelled from the spec: \<open>prisma.keyword.create\<close> persists the new keyword with
  status ACTIVE and all counters zero, under the next id of the sequence, and returns the
  row. The columns the caller gives are taken from the \<open>data\<close> argument.
\<close>

definition prisma_keyword_create ::
  "Store \<Rightarrow> int \<Rightarrow> int option \<Rightarrow> jsstring \<Rightarrow> MatchType \<Rightarrow> rat \<Rightarrow> bool \<Rightarrow> Keyword \<times> Store" where
  "prisma_keyword_create s cid gid txt mt b neg =
     (let k = \<lparr> id_kw = keywordSeq s + 1, campaignId = cid, adGroupId = gid,
                 keywordText = txt, matchType = mt, bid = b, status = ACTIVE,
                 isNegative = neg, impressions = 0, clicks = 0, conversions = 0,
                 spend = 0, sales = 0 \<rparr>
      in (k, s\<lparr> keywordTable := keywordTable s @ [k], keywordSeq := keywordSeq s + 1 \<rparr>))"

text \<open>\<open>prisma.keyword.findFirst({ where: { id, campaignId } })\<close>.\<close>

definition prisma_keyword_findFirst :: "Store \<Rightarrow> int \<Rightarrow> int \<Rightarrow> Keyword option" where
  "prisma_keyword_findFirst s i cid =
     List.find (\<lambda>k. id_kw k = i \<and> Keyword.campaignId k = cid) (keywordTable s)"

text \<open>
  \<open>prisma.keyword.update({ where: { id }, data })\<close>: the row of that primary key is
  replaced by its patched version, which is returned; the ORM raises when there is no such
  row. The patch is the function that overwrites the columns present in \<open>data\<close>.
\<close>

definition prisma_keyword_update ::
  "Store \<Rightarrow> int \<Rightarrow> (Keyword \<Rightarrow> Keyword) \<Rightarrow> (error + Keyword) \<times> Store" where
  "prisma_keyword_update s i f =
     (case List.find (\<lambda>k. id_kw k = i) (keywordTable s) of
        None \<Rightarrow> (Inl (PrismaError ''Record to update not found''), s)
      | Some k \<Rightarrow>
          (Inr (f k),
           s\<lparr> keywordTable := map (\<lambda>r. if id_kw r = i then f r else r) (keywordTable s) \<rparr>))"

text \<open>
  \<open>prisma.keyword.findMany({ where, orderBy: { createdAt: 'desc' } })\<close>: the rows that
  satisfy the filter, latest creation first.
\<close>

definition prisma_keyword_findMany :: "Store \<Rightarrow> (Keyword \<Rightarrow> bool) \<Rightarrow> Keyword list" where
  "prisma_keyword_findMany s w = rev (filter w (keywordTable s))"

section \<open>KeywordService\<close>

definition createKeyword :: "Store \<Rightarrow> CreateKeywordDto \<Rightarrow> (error + Keyword) \<times> Store" where
  "createKeyword s data =
     (if \<not> truthy_bool (CreateKeywordDto.isNegative data) \<and> CreateKeywordDto.bid data \<le> 0
      then (Inl (ValidationError ''Bid must be greater than 0''), s)
      else if trim (CreateKeywordDto.keywordText data) = []
      then (Inl (ValidationError ''Keyword text cannot be empty''), s)
      else case campaignTable s (CreateKeywordDto.campaignId data) of
        None \<Rightarrow> (Inl (NotFoundError ''Campaign not found''), s)
      | Some campaign \<Rightarrow>
          (case (if truthy_num (CreateKeywordDto.adGroupId data)
                 then (case adGroupTable s (the (CreateKeywordDto.adGroupId data)) of
                         None \<Rightarrow> Some (NotFoundError ''Ad group not found'')
                       | Some adGroup \<Rightarrow>
                           if AdGroup.campaignId adGroup \<noteq> CreateKeywordDto.campaignId data
                           then Some (ValidationError
                                  ''Ad group does not belong to the specified campaign'')
                           else None)
                 else None) of
             Some e \<Rightarrow> (Inl e, s)
           | None \<Rightarrow>
               (case prisma_keyword_create s
                       (CreateKeywordDto.campaignId data)
                       (CreateKeywordDto.adGroupId data)
                       (trim (CreateKeywordDto.keywordText data))
                       (CreateKeywordDto.matchType data)
                       (CreateKeywordDto.bid data)
                       (truthy_bool (CreateKeywordDto.isNegative data)) of
                  (keyword, s') \<Rightarrow> (Inr keyword, s'))))"

definition keyword_where :: "int \<Rightarrow> KeywordFilters option \<Rightarrow> Keyword \<Rightarrow> bool" where
  "keyword_where cid filters k \<longleftrightarrow>
     Keyword.campaignId k = cid \<and>
     (case filters of
        None \<Rightarrow> True
      | Some f \<Rightarrow>
          (truthy_num (KeywordFilters.adGroupId f)
             \<longrightarrow> Keyword.adGroupId k = KeywordFilters.adGroupId f) \<and>
          (case KeywordFilters.matchType f of
             None \<Rightarrow> True | Some m \<Rightarrow> Keyword.matchType k = m) \<and>
          (case KeywordFilters.status f of
             None \<Rightarrow> True | Some st \<Rightarrow> Keyword.status k = st) \<and>
          (case KeywordFilters.isNegative f of
             None \<Rightarrow> True | Some n \<Rightarrow> Keyword.isNegative k = n))"

definition getCampaignKeywords :: "Store \<Rightarrow> int \<Rightarrow> KeywordFilters option \<Rightarrow> Keyword list" where
  "getCampaignKeywords s cid filters = prisma_keyword_findMany s (keyword_where cid filters)"

definition getKeywordById :: "Store \<Rightarrow> int \<Rightarrow> int \<Rightarrow> (error + Keyword) \<times> Store" where
  "getKeywordById s i cid =
     (case prisma_keyword_findFirst s i cid of
        None \<Rightarrow> (Inl (NotFoundError ''Keyword not found''), s)
      | Some keyword \<Rightarrow> (Inr keyword, s))"

text \<open>
  The \<open>data\<close> object that \<open>updateKeyword\<close> hands to the ORM: one conditional spread per
  member, guarded by truthiness for \<open>keywordText\<close> (a non-empty string), \<open>matchType\<close> and
  \<open>status\<close> (any of their string constants is truthy) and by \<open>!== undefined\<close> for \<open>bid\<close>
  and \<open>isNegative\<close>.
\<close>

definition update_data :: "UpdateKeywordDto \<Rightarrow> Keyword \<Rightarrow> Keyword" where
  "update_data data k =
     (let k1 = (case UpdateKeywordDto.keywordText data of
                  None \<Rightarrow> k
                | Some t \<Rightarrow> if t \<noteq> [] then k\<lparr> Keyword.keywordText := trim t \<rparr> else k);
          k2 = (case UpdateKeywordDto.matchType data of
                  None \<Rightarrow> k1 | Some m \<Rightarrow> k1\<lparr> Keyword.matchType := m \<rparr>);
          k3 = (case UpdateKeywordDto.bid data of
                  None \<Rightarrow> k2 | Some b \<Rightarrow> k2\<lparr> Keyword.bid := b \<rparr>);
          k4 = (case UpdateKeywordDto.status data of
                  None \<Rightarrow> k3 | Some st \<Rightarrow> k3\<lparr> Keyword.status := st \<rparr>);
          k5 = (case UpdateKeywordDto.isNegative data of
                  None \<Rightarrow> k4 | Some n \<Rightarrow> k4\<lparr> Keyword.isNegative := n \<rparr>)
      in k5)"

definition updateKeyword ::
  "Store \<Rightarrow> int \<Rightarrow> int \<Rightarrow> UpdateKeywordDto \<Rightarrow> (error + Keyword) \<times> Store" where
  "updateKeyword s i cid data =
     (case getKeywordById s i cid of
        (Inl e, s1) \<Rightarrow> (Inl e, s1)
      | (Inr existingKeyword, s1) \<Rightarrow>
          (let willBeNegative =
                 (case UpdateKeywordDto.isNegative data of
                    Some n \<Rightarrow> n | None \<Rightarrow> Keyword.isNegative existingKeyword)
           in if (case UpdateKeywordDto.bid data of
                    Some b \<Rightarrow> \<not> willBeNegative \<and> b \<le> 0 | None \<Rightarrow> False)
              then (Inl (ValidationError ''Bid must be greater than 0''), s1)
              else if (case UpdateKeywordDto.keywordText data of
                         Some t \<Rightarrow> trim t = [] | None \<Rightarrow> False)
              then (Inl (ValidationError ''Keyword text cannot be empty''), s1)
              else prisma_keyword_update s1 i (update_data data)))"

definition deleteKeyword :: "Store \<Rightarrow> int \<Rightarrow> int \<Rightarrow> (error + unit) \<times> Store" where
  "deleteKeyword s i cid =
     (case getKeywordById s i cid of
        (Inl e, s1) \<Rightarrow> (Inl e, s1)
      | (Inr _, s1) \<Rightarrow>
          (case prisma_keyword_update s1 i (\<lambda>k. k\<lparr> Keyword.status := ARCHIVED \<rparr>) of
             (Inl e, s2) \<Rightarrow> (Inl e, s2)
           | (Inr _, s2) \<Rightarrow> (Inr (), s2)))"

text \<open>
  \<open>bulkCreateKeywords\<close> maps \<open>createKeyword\<close> over the entries and hands the promises to
  \<open>Promise.all\<close>. Every call is started at once, and the calls then run concurrently: a
  call runs up to its next \<open>await\<close> and goes on when the store has answered its query, in
  an order that the code does not control. Nothing cancels a call when another one fails.
  A call is suspended at one of the three queries of \<open>createKeyword\<close>, or it has settled.
\<close>

datatype Call =
    AwaitCampaign CreateKeywordDto
  | AwaitAdGroup CreateKeywordDto
  | AwaitCreate CreateKeywordDto
  | Settled "error + Keyword"

text \<open>The part of \<open>createKeyword\<close> before its first \<open>await\<close>: the two input checks.\<close>

definition start_call :: "CreateKeywordDto \<Rightarrow> Call" where
  "start_call data =
     (if \<not> truthy_bool (CreateKeywordDto.isNegative data) \<and> CreateKeywordDto.bid data \<le> 0
      then Settled (Inl (ValidationError ''Bid must be greater than 0''))
      else if trim (CreateKeywordDto.keywordText data) = []
      then Settled (Inl (ValidationError ''Keyword text cannot be empty''))
      else AwaitCampaign data)"

text \<open>
  The store answers the query a call is suspended at, and the call runs on to its next
  \<open>await\<close> or to its end. A settled call stays as it is.
\<close>

fun resume :: "Call \<Rightarrow> Store \<Rightarrow> Call \<times> Store" where
  "resume (AwaitCampaign data) s =
     (case campaignTable s (CreateKeywordDto.campaignId data) of
        None \<Rightarrow> (Settled (Inl (NotFoundError ''Campaign not found'')), s)
      | Some campaign \<Rightarrow>
          (if truthy_num (CreateKeywordDto.adGroupId data)
           then (AwaitAdGroup data, s) else (AwaitCreate data, s)))"
| "resume (AwaitAdGroup data) s =
     (case adGroupTable s (the (CreateKeywordDto.adGroupId data)) of
        None \<Rightarrow> (Settled (Inl (NotFoundError ''Ad group not found'')), s)
      | Some adGroup \<Rightarrow>
          (if AdGroup.campaignId adGroup \<noteq> CreateKeywordDto.campaignId data
           then (Settled (Inl (ValidationError
                   ''Ad group does not belong to the specified campaign'')), s)
           else (AwaitCreate data, s)))"
| "resume (AwaitCreate data) s =
     (case prisma_keyword_create s
             (CreateKeywordDto.campaignId data)
             (CreateKeywordDto.adGroupId data)
             (trim (CreateKeywordDto.keywordText data))
             (CreateKeywordDto.matchType data)
             (CreateKeywordDto.bid data)
             (truthy_bool (CreateKeywordDto.isNegative data)) of
        (keyword, s') \<Rightarrow> (Settled (Inr keyword), s'))"
| "resume (Settled r) s = (Settled r, s)"

text \<open>
  A run of \<open>bulkCreateKeywords\<close>: the calls in the order of the entries, the store, and the
  reason \<open>Promise.all\<close> has rejected with, if it has. \<open>Promise.all\<close> rejects with the reason
  of the call that rejects first in time and ignores every later rejection. The calls that
  throw in their input checks have rejected before any answer of the store arrives, and
  \<open>Promise.all\<close> sees them in the order of the list.
\<close>

record BulkRun =
  calls :: "Call list"
  store :: Store
  rejection :: "error option"

fun first_rejected :: "Call list \<Rightarrow> error option" where
  "first_rejected [] = None"
| "first_rejected (Settled (Inl e) # cs) = Some e"
| "first_rejected (c # cs) = first_rejected cs"

definition started :: "Store \<Rightarrow> CreateKeywordDto list \<Rightarrow> BulkRun" where
  "started s ds =
     \<lparr> calls = map start_call ds, store = s, rejection = first_rejected (map start_call ds) \<rparr>"

text \<open>
  The store answers the query of call \<open>i\<close>. A schedule is the list of the calls answered,
  in the order of the answers; an index that names no call, or a settled one, changes
  nothing.
\<close>

definition answer :: "BulkRun \<Rightarrow> nat \<Rightarrow> BulkRun" where
  "answer r i =
     (if i < length (calls r)
      then case resume (calls r ! i) (store r) of
             (c, s') \<Rightarrow>
               \<lparr> calls = (calls r)[i := c], store = s',
                 rejection = (case rejection r of
                                Some e \<Rightarrow> Some e
                              | None \<Rightarrow> first_rejected [c]) \<rparr>
      else r)"

definition bulk_run :: "nat list \<Rightarrow> Store \<Rightarrow> CreateKeywordDto list \<Rightarrow> BulkRun" where
  "bulk_run sched s ds = foldl answer (started s ds) sched"

text \<open>
  \<open>Promise.all\<close> is rejected once a call has rejected, fulfilled with the values in the
  order of the entries once every call has fulfilled, and pending otherwise.
\<close>

fun fulfilled_values :: "Call list \<Rightarrow> Keyword list option" where
  "fulfilled_values [] = Some []"
| "fulfilled_values (Settled (Inr k) # cs) = map_option ((#) k) (fulfilled_values cs)"
| "fulfilled_values (c # cs) = None"

definition promise_all :: "BulkRun \<Rightarrow> (error + Keyword list) option" where
  "promise_all r =
     (case rejection r of
        Some e \<Rightarrow> Some (Inl e)
      | None \<Rightarrow> map_option Inr (fulfilled_values (calls r)))"

text \<open>
  The result of \<open>bulkCreateKeywords\<close> and the store once the answers of the schedule have
  arrived: \<open>None\<close> as long as the promise is pending.
\<close>

definition bulkCreateKeywords ::
  "nat list \<Rightarrow> Store \<Rightarrow> CreateKeywordDto list \<Rightarrow> (error + Keyword list) option \<times> Store" where
  "bulkCreateKeywords sched s ds =
     (let r = bulk_run sched s ds in (promise_all r, store r))"

text \<open>
  The schedule in which every query takes the same time: the calls are answered in turns,
  in the order of the list, and three turns end every call.
\<close>

definition in_turns :: "nat \<Rightarrow> nat list" where
  "in_turns n = concat (replicate 3 [0..<n])"

text \<open>The number of queries a call may still send.\<close>

fun awaits_left :: "Call \<Rightarrow> nat" where
  "awaits_left (AwaitCampaign data) = 3"
| "awaits_left (AwaitAdGroup data) = 2"
| "awaits_left (AwaitCreate data) = 1"
| "awaits_left (Settled r) = 0"

text \<open>
  What a call of entry \<open>d\<close> has found out so far agrees with \<open>createKeyword\<close> run on its own
  on the store \<open>s\<close>: a settled call has the outcome of \<open>createKeyword\<close>, a created keyword up
  to its id, and a suspended call has passed the checks before its query.
\<close>

fun agrees :: "Store \<Rightarrow> CreateKeywordDto \<Rightarrow> Call \<Rightarrow> bool" where
  "agrees s d (AwaitCampaign data) = (data = d \<and> start_call d = AwaitCampaign d)"
| "agrees s d (AwaitAdGroup data) =
     (data = d \<and> start_call d = AwaitCampaign d \<and> resume (AwaitCampaign d) s = (AwaitAdGroup d, s))"
| "agrees s d (AwaitCreate data) = (data = d \<and> \<not> isl (fst (createKeyword s d)))"
| "agrees s d (Settled (Inl e)) = (fst (createKeyword s d) = Inl e)"
| "agrees s d (Settled (Inr k)) =
     (fst (createKeyword s d) = Inr (k\<lparr> id_kw := keywordSeq s + 1 \<rparr>))"

section \<open>JavaScript numbers\<close>

text \<open>
  The statistics are computed with JavaScript numbers, which are IEEE 754 doubles. A number
  is a finite double, given by its exact rational value, one of the two infinities, or
  \<open>NaN\<close>. The two zeros are not told apart: the service only multiplies such a value by
  100 and renders it with \<open>toFixed\<close>, which treats both alike.
\<close>

datatype jsnumber = Finite rat | PosInfinity | NegInfinity | NaN

text \<open>The binary exponent of a positive rational: \<open>2 powi e \<le> q < 2 powi (e + 1)\<close>.\<close>

definition floor_log2 :: "rat \<Rightarrow> int" where
  "floor_log2 q =
     (if 1 \<le> q then bitlen \<lfloor>q\<rfloor> - 1
      else let b = bitlen \<lfloor>1 / q\<rfloor>
           in if 1 / q = 2 ^ nat (b - 1) then - (b - 1) else - b)"

definition round_half_even :: "rat \<Rightarrow> int" where
  "round_half_even q =
     (let f = \<lfloor>q\<rfloor>; r = q - of_int f
      in if r < 1 / 2 then f else if 1 / 2 < r then f + 1 else if even f then f else f + 1)"

text \<open>
  Rounding to the nearest double, ties to even: a double has 53 significant bits, so the
  doubles around a positive \<open>a\<close> are the multiples of \<open>2 powi (e - 52)\<close>, where \<open>e\<close> is the
  exponent of \<open>a\<close> and at least -1022 (below that the doubles are subnormal and evenly
  spaced). A result of \<open>2 ^ 1024\<close> or more is an infinity.
\<close>

definition exponent_of :: "rat \<Rightarrow> int" where
  "exponent_of a = max (floor_log2 a) (- 1022)"

definition ulp_of :: "rat \<Rightarrow> rat" where
  "ulp_of a = 2 powi (exponent_of a - 52)"

definition nearest_multiple :: "rat \<Rightarrow> rat" where
  "nearest_multiple a = of_int (round_half_even (a / ulp_of a)) * ulp_of a"

definition overflow_threshold :: rat where
  "overflow_threshold = 2 ^ 1024"

definition round_to_double :: "rat \<Rightarrow> jsnumber" where
  "round_to_double q =
     (if q = 0 then Finite 0
      else let m = nearest_multiple \<bar>q\<bar>
           in if overflow_threshold \<le> m then (if 0 < q then PosInfinity else NegInfinity)
              else Finite (if 0 < q then m else - m))"

text \<open>Division and multiplication of numbers, and the test \<open>x > 0\<close>.\<close>

fun js_div :: "jsnumber \<Rightarrow> jsnumber \<Rightarrow> jsnumber" where
  "js_div NaN y = NaN"
| "js_div x NaN = NaN"
| "js_div (Finite a) (Finite b) =
     (if b = 0 then (if a = 0 then NaN else if 0 < a then PosInfinity else NegInfinity)
      else round_to_double (a / b))"
| "js_div (Finite a) y = Finite 0"
| "js_div PosInfinity (Finite b) = (if 0 \<le> b then PosInfinity else NegInfinity)"
| "js_div NegInfinity (Finite b) = (if 0 \<le> b then NegInfinity else PosInfinity)"
| "js_div x y = NaN"

fun js_mul :: "jsnumber \<Rightarrow> jsnumber \<Rightarrow> jsnumber" where
  "js_mul NaN y = NaN"
| "js_mul x NaN = NaN"
| "js_mul (Finite a) (Finite b) = round_to_double (a * b)"
| "js_mul (Finite a) PosInfinity = (if a = 0 then NaN else if 0 < a then PosInfinity else NegInfinity)"
| "js_mul (Finite a) NegInfinity = (if a = 0 then NaN else if 0 < a then NegInfinity else PosInfinity)"
| "js_mul PosInfinity (Finite b) = (if b = 0 then NaN else if 0 < b then PosInfinity else NegInfinity)"
| "js_mul NegInfinity (Finite b) = (if b = 0 then NaN else if 0 < b then NegInfinity else PosInfinity)"
| "js_mul PosInfinity PosInfinity = PosInfinity"
| "js_mul NegInfinity NegInfinity = PosInfinity"
| "js_mul x y = NegInfinity"

fun js_positive :: "jsnumber \<Rightarrow> bool" where
  "js_positive (Finite a) = (0 < a)"
| "js_positive PosInfinity = True"
| "js_positive x = False"

text \<open>
  An integer column read as a number, \<open>Number\<close> of a BigInt, and \<open>Number\<close> of a decimal: the
  nearest double in each case.
\<close>

definition number_of_int :: "int \<Rightarrow> jsnumber" where
  "number_of_int n = round_to_double (of_int n)"

definition Number_of_decimal :: "rat \<Rightarrow> jsnumber" where
  "Number_of_decimal d = round_to_double d"

subsection \<open>Rendering\<close>

text \<open>The decimal digits of a non-negative integer.\<close>

definition digit_char :: "int \<Rightarrow> char" where
  "digit_char d = ''0123456789'' ! nat d"

function digits :: "int \<Rightarrow> string" where
  "digits n = (if n < 10 then [digit_char n] else digits (n div 10) @ [digit_char (n mod 10)])"
  by pat_completeness auto
termination
  by (relation "measure nat") auto

declare digits.simps [simp del]

definition bigint_toString :: "int \<Rightarrow> string" where
  "bigint_toString n = (if n < 0 then ''-'' @ digits (- n) else digits n)"

text \<open>
  \<open>Number::toString\<close> of a finite number of at least \<open>10 ^ 21\<close>, which is what \<open>toFixed\<close>
  falls back to: the fewest digits \<open>s\<close>, at most 17, with \<open>s * 10 ^ (n - k)\<close> rounding to
  the number, the closest such \<open>s\<close> and the even one of two, in exponential notation.
\<close>

definition digit_candidates :: "rat \<Rightarrow> int \<Rightarrow> int \<Rightarrow> (int \<times> int) list" where
  "digit_candidates x n k =
     filter (\<lambda>(s, n'). 10 ^ nat (k - 1) \<le> s \<and> s < 10 ^ nat k
                     \<and> round_to_double (of_int s * 10 ^ nat (n' - k)) = Finite x)
       (concat (map (\<lambda>n'. [(\<lfloor>x / 10 ^ nat (n' - k)\<rfloor>, n'),
                            (\<lfloor>x / 10 ^ nat (n' - k)\<rfloor> + 1, n')])
                  [n, n + 1]))"

fun closest_candidate :: "rat \<Rightarrow> int \<Rightarrow> (int \<times> int) list \<Rightarrow> (int \<times> int) option" where
  "closest_candidate x k [] = None"
| "closest_candidate x k ((s, n) # cs) =
     (case closest_candidate x k cs of
        None \<Rightarrow> Some (s, n)
      | Some (s', n') \<Rightarrow>
          (let d = \<bar>of_int s * 10 ^ nat (n - k) - x\<bar>;
               d' = \<bar>of_int s' * 10 ^ nat (n' - k) - x\<bar>
           in if d < d' \<or> (d = d' \<and> even s) then Some (s, n) else Some (s', n')))"

fun shortest_digits :: "nat \<Rightarrow> rat \<Rightarrow> int \<Rightarrow> int \<Rightarrow> int \<times> int \<times> int" where
  "shortest_digits 0 x n k = (\<lfloor>x / 10 ^ nat (n - k)\<rfloor>, n, k)"
| "shortest_digits (Suc fuel) x n k =
     (case closest_candidate x k (digit_candidates x n k) of
        Some (s, n') \<Rightarrow> (s, n', k)
      | None \<Rightarrow> shortest_digits fuel x n (k + 1))"

definition exponential_notation :: "rat \<Rightarrow> string" where
  "exponential_notation x =
     (case shortest_digits 17 x (int (length (digits \<lfloor>x\<rfloor>))) 1 of
        (s, n, k) \<Rightarrow>
          (let ds = digits s
           in (if k = 1 then ds else hd ds # CHR ''.'' # tl ds) @ ''e+'' @ digits (n - 1)))"

text \<open>
  \<open>Number.prototype.toFixed\<close>: a number that is not finite is rendered by name; a finite
  one gets its sign, and then either the exponential notation, from \<open>10 ^ 21\<close> on, or the
  digits of the integer \<open>n\<close> nearest to \<open>x * 10 ^ f\<close>, the larger of two, with the point
  before the last \<open>f\<close> of them.
\<close>

definition toFixed :: "nat \<Rightarrow> jsnumber \<Rightarrow> string" where
  "toFixed f x =
     (case x of
        NaN \<Rightarrow> ''NaN''
      | PosInfinity \<Rightarrow> ''Infinity''
      | NegInfinity \<Rightarrow> ''-Infinity''
      | Finite q \<Rightarrow>
          (let s = (if q < 0 then ''-'' else []);
               a = \<bar>q\<bar>
           in if 10 ^ 21 \<le> a then s @ exponential_notation a
              else let n = \<lfloor>a * 10 ^ f + 1 / 2\<rfloor>;
                       m = digits n;
                       m' = (if f = 0 then m
                             else let z = replicate (f + 1 - length m) CHR ''0'' @ m
                                  in take (length z - f) z @ ''.'' @ drop (length z - f) z)
                   in s @ m'))"

text \<open>
  What the spec calls a decimal string rounded to 2 decimal places: the sign, the integer
  part and two decimals of the nearest multiple of 1/100, halves rounded away from zero.
  \<open>decimal_of\<close> reads a string of digits back, and \<open>read_2_places\<close> reads such a
  decimal string as the number it denotes.
\<close>

definition rounded_to_2_places :: "rat \<Rightarrow> string" where
  "rounded_to_2_places v =
     (let n = \<lfloor>\<bar>v\<bar> * 100 + 1 / 2\<rfloor>
      in (if v < 0 then ''-'' else []) @ digits (n div 100) @ ''.''
           @ [digit_char (n div 10 mod 10), digit_char (n mod 10)])"

definition decimal_of :: "string \<Rightarrow> int" where
  "decimal_of cs = foldl (\<lambda>a c. 10 * a + (of_char c - 48)) 0 cs"

definition read_2_places :: "string \<Rightarrow> rat" where
  "read_2_places cs =
     (let m = of_int (decimal_of (filter (\<lambda>c. c \<noteq> CHR ''.'' \<and> c \<noteq> CHR ''-'') cs)) / 100
      in if CHR ''-'' \<in> set cs then - m else m)"

section \<open>The statistics of a keyword\<close>

definition stats_object :: "Keyword \<Rightarrow> KeywordStats" where
  "stats_object keyword =
     \<lparr> KeywordStats.impressions = bigint_toString (Keyword.impressions keyword),
       KeywordStats.clicks = Keyword.clicks keyword,
       KeywordStats.conversions = Keyword.conversions keyword,
       KeywordStats.spend = Keyword.spend keyword,
       KeywordStats.sales = Keyword.sales keyword,
       ctr = (if 0 < Keyword.impressions keyword
              then toFixed 2 (js_mul (js_div (number_of_int (Keyword.clicks keyword))
                                             (number_of_int (Keyword.impressions keyword)))
                                     (Finite 100))
              else ''0.00''),
       cvr = (if 0 < Keyword.clicks keyword
              then toFixed 2 (js_mul (js_div (number_of_int (Keyword.conversions keyword))
                                             (number_of_int (Keyword.clicks keyword)))
                                     (Finite 100))
              else ''0.00''),
       cpc = (if 0 < Keyword.clicks keyword
              then toFixed 2 (js_div (Number_of_decimal (Keyword.spend keyword))
                                     (number_of_int (Keyword.clicks keyword)))
              else ''0.00''),
       acos = (if js_positive (Number_of_decimal (Keyword.sales keyword))
               then toFixed 2 (js_mul (js_div (Number_of_decimal (Keyword.spend keyword))
                                              (Number_of_decimal (Keyword.sales keyword)))
                                      (Finite 100))
               else ''0.00'') \<rparr>"

definition getKeywordStats :: "Store \<Rightarrow> int \<Rightarrow> int \<Rightarrow> (error + KeywordStats) \<times> Store" where
  "getKeywordStats s i cid =
     (case getKeywordById s i cid of
        (Inl e, s1) \<Rightarrow> (Inl e, s1)
      | (Inr keyword, s1) \<Rightarrow> (Inr (stats_object keyword), s1))"

section \<open>The frontend keyword slice\<close>

text \<open>
  The state of the slice and the actions its reducer handles: the two plain reducers and
  the pending, fulfilled and rejected actions of the five thunks. A rejected action carries
  the optional message of the error.
\<close>

record KeywordState =
  keywords' :: "Keyword list"
  selectedKeyword :: "Keyword option"
  loading :: bool
  error :: "string option"

datatype KeywordAction =
    SelectKeyword "Keyword option"
  | ClearError
  | FetchCampaignKeywordsPending
  | FetchCampaignKeywordsFulfilled "Keyword list"
  | FetchCampaignKeywordsRejected "string option"
  | FetchAdGroupKeywordsPending
  | FetchAdGroupKeywordsFulfilled "Keyword list"
  | FetchAdGroupKeywordsRejected "string option"
  | CreateKeywordPending
  | CreateKeywordFulfilled Keyword
  | CreateKeywordRejected "string option"
  | UpdateKeywordPending
  | UpdateKeywordFulfilled Keyword
  | UpdateKeywordRejected "string option"
  | DeleteKeywordPending
  | DeleteKeywordFulfilled int
  | DeleteKeywordRejected "string option"

definition initialState :: KeywordState where
  "initialState = \<lparr> keywords' = [], selectedKeyword = None, loading = False, error = None \<rparr>"

text \<open>\<open>action.error.message || fallback\<close>: the message when it is a non-empty string.\<close>

fun message_or :: "string option \<Rightarrow> string \<Rightarrow> string" where
  "message_or None d = d"
| "message_or (Some m) d = (if m \<noteq> [] then m else d)"

text \<open>\<open>findIndex\<close> followed by the assignment at that index, when there is one.\<close>

fun replace_first :: "Keyword \<Rightarrow> Keyword list \<Rightarrow> Keyword list" where
  "replace_first p [] = []"
| "replace_first p (k # ks) = (if id_kw k = id_kw p then p # ks else k # replace_first p ks)"

fun keywordSlice_reducer :: "KeywordState \<Rightarrow> KeywordAction \<Rightarrow> KeywordState" where
  "keywordSlice_reducer st (SelectKeyword p) = st\<lparr> selectedKeyword := p \<rparr>"
| "keywordSlice_reducer st ClearError = st\<lparr> error := None \<rparr>"
| "keywordSlice_reducer st FetchCampaignKeywordsPending = st\<lparr> loading := True, error := None \<rparr>"
| "keywordSlice_reducer st (FetchCampaignKeywordsFulfilled p) =
     st\<lparr> loading := False, keywords' := p \<rparr>"
| "keywordSlice_reducer st (FetchCampaignKeywordsRejected m) =
     st\<lparr> loading := False, error := Some (message_or m ''Failed to fetch keywords'') \<rparr>"
| "keywordSlice_reducer st FetchAdGroupKeywordsPending = st\<lparr> loading := True, error := None \<rparr>"
| "keywordSlice_reducer st (FetchAdGroupKeywordsFulfilled p) =
     st\<lparr> loading := False, keywords' := p \<rparr>"
| "keywordSlice_reducer st (FetchAdGroupKeywordsRejected m) =
     st\<lparr> loading := False, error := Some (message_or m ''Failed to fetch keywords'') \<rparr>"
| "keywordSlice_reducer st CreateKeywordPending = st\<lparr> loading := True, error := None \<rparr>"
| "keywordSlice_reducer st (CreateKeywordFulfilled p) =
     st\<lparr> loading := False, keywords' := keywords' st @ [p] \<rparr>"
| "keywordSlice_reducer st (CreateKeywordRejected m) =
     st\<lparr> loading := False, error := Some (message_or m ''Failed to create keyword'') \<rparr>"
| "keywordSlice_reducer st UpdateKeywordPending = st\<lparr> loading := True, error := None \<rparr>"
| "keywordSlice_reducer st (UpdateKeywordFulfilled p) =
     st\<lparr> loading := False, keywords' := replace_first p (keywords' st) \<rparr>"
| "keywordSlice_reducer st (UpdateKeywordRejected m) =
     st\<lparr> loading := False, error := Some (message_or m ''Failed to update keyword'') \<rparr>"
| "keywordSlice_reducer st DeleteKeywordPending = st\<lparr> loading := True, error := None \<rparr>"
| "keywordSlice_reducer st (DeleteKeywordFulfilled p) =
     st\<lparr> loading := False, keywords' := filter (\<lambda>k. id_kw k \<noteq> p) (keywords' st) \<rparr>"
| "keywordSlice_reducer st (DeleteKeywordRejected m) =
     st\<lparr> loading := False, error := Some (message_or m ''Failed to delete keyword'') \<rparr>"

text \<open>
  The primary key of the keyword table: no two rows share an id, and no id is beyond the
  last value of the sequence. Every operation of the service keeps it.
\<close>

definition unique_ids :: "Store \<Rightarrow> bool" where
  "unique_ids s \<longleftrightarrow>
     distinct (map id_kw (keywordTable s)) \<and>
     list_all (\<lambda>k. id_kw k \<le> keywordSeq s) (keywordTable s)"

section \<open>Example data\<close>

text \<open>
  A small store used to run the operations on concrete input: two campaigns, one ad group
  under the first campaign, and three keywords, the second of them a negative keyword.
\<close>

definition kw_shoes :: Keyword where
  "kw_shoes = \<lparr> id_kw = 1, campaignId = 1, adGroupId = Some 1,
                 keywordText = str ''running shoes'', matchType = EXACT, bid = 3 / 2,
                 status = ACTIVE, isNegative = False, impressions = 1000, clicks = 50,
                 conversions = 5, spend = 25, sales = 100 \<rparr>"

definition kw_free :: Keyword where
  "kw_free = \<lparr> id_kw = 2, campaignId = 1, adGroupId = None,
                keywordText = str ''free'', matchType = BROAD, bid = 0,
                status = PAUSED, isNegative = True, impressions = 0, clicks = 0,
                conversions = 0, spend = 0, sales = 0 \<rparr>"

definition kw_boots :: Keyword where
  "kw_boots = \<lparr> id_kw = 3, campaignId = 2, adGroupId = None,
                 keywordText = str ''boots'', matchType = PHRASE, bid = 2,
                 status = ACTIVE, isNegative = False, impressions = 10, clicks = 1,
                 conversions = 0, spend = 1 / 2, sales = 0 \<rparr>"

definition demo_store :: Store where
  "demo_store =
     \<lparr> campaignTable =
         [1 \<mapsto> \<lparr> Campaign.name = str ''Spring'', budget = 100, Campaign.status = ACTIVE \<rparr>,
          2 \<mapsto> \<lparr> Campaign.name = str ''Winter'', budget = 50, Campaign.status = PAUSED \<rparr>],
       adGroupTable =
         [1 \<mapsto> \<lparr> AdGroup.campaignId = 1, AdGroup.name = str ''Footwear'', defaultBid = 1,
                  AdGroup.status = ACTIVE \<rparr>],
       keywordTable = [kw_shoes, kw_free, kw_boots],
       keywordSeq = 3 \<rparr>"

definition dto_sandals :: CreateKeywordDto where
  "dto_sandals = \<lparr> CreateKeywordDto.campaignId = 1, CreateKeywordDto.adGroupId = Some 1,
                    CreateKeywordDto.keywordText = str ''  sandals '',
                    CreateKeywordDto.matchType = PHRASE, CreateKeywordDto.bid = 3 / 4,
                    CreateKeywordDto.isNegative = Some False \<rparr>"

definition patch_bid :: "rat \<Rightarrow> UpdateKeywordDto" where
  "patch_bid b = \<lparr> UpdateKeywordDto.keywordText = None, UpdateKeywordDto.matchType = None,
                    UpdateKeywordDto.bid = Some b, UpdateKeywordDto.status = None,
                    UpdateKeywordDto.isNegative = None \<rparr>"

definition dto_cheap :: CreateKeywordDto where
  "dto_cheap = \<lparr> CreateKeywordDto.campaignId = 2, CreateKeywordDto.adGroupId = None,
                  CreateKeywordDto.keywordText = str ''cheap'',
                  CreateKeywordDto.matchType = BROAD, CreateKeywordDto.bid = - 5,
                  CreateKeywordDto.isNegative = Some True \<rparr>"

definition kw_cheap :: Keyword where
  "kw_cheap = \<lparr> id_kw = 4, campaignId = 2, adGroupId = None,
                 keywordText = str ''cheap'', matchType = BROAD, bid = - 5,
                 status = ACTIVE, isNegative = True, impressions = 0, clicks = 0,
                 conversions = 0, spend = 0, sales = 0 \<rparr>"

definition kw_sandals :: Keyword where
  "kw_sandals = \<lparr> id_kw = 5, campaignId = 1, adGroupId = Some 1,
                   keywordText = str ''sandals'', matchType = PHRASE, bid = 3 / 4,
                   status = ACTIVE, isNegative = False, impressions = 0, clicks = 0,
                   conversions = 0, spend = 0, sales = 0 \<rparr>"

text \<open>An entry whose ad group does not exist, and one whose campaign does not exist.\<close>

definition dto_orphan :: CreateKeywordDto where
  "dto_orphan = \<lparr> CreateKeywordDto.campaignId = 1, CreateKeywordDto.adGroupId = Some 9,
                   CreateKeywordDto.keywordText = str ''orphan'',
                   CreateKeywordDto.matchType = EXACT, CreateKeywordDto.bid = 1,
                   CreateKeywordDto.isNegative = None \<rparr>"

definition dto_lost :: CreateKeywordDto where
  "dto_lost = \<lparr> CreateKeywordDto.campaignId = 3, CreateKeywordDto.adGroupId = None,
                 CreateKeywordDto.keywordText = str ''lost'',
                 CreateKeywordDto.matchType = EXACT, CreateKeywordDto.bid = 1,
                 CreateKeywordDto.isNegative = None \<rparr>"

definition local_state :: KeywordState where
  "local_state = \<lparr> keywords' = [kw_free, kw_shoes], selectedKeyword = Some kw_shoes,
                    loading = True, error = None \<rparr>"

section \<open>Properties\<close>

subsection \<open>Trimming\<close>

lemma trim_hd: "trim t \<noteq> [] \<Longrightarrow> \<not> is_whitespace (hd (trim t))"
  unfolding trim_def
  by (metis Nil_is_rev_conv dropWhile.simps(1) dropWhile_last hd_dropWhile
      hd_rev last_in_set last_rev)

lemma trim_last: "trim t \<noteq> [] \<Longrightarrow> \<not> is_whitespace (last (trim t))"
  unfolding trim_def by (simp add: hd_dropWhile last_rev)

lemma str_sandals: "trim (str ''  sandals '') = str ''sandals''"
  by (simp add: trim_def str_def is_whitespace_def)

subsection \<open>Creating a keyword\<close>

lemma createKeyword_tables:
  "createKeyword s data = (r, s') \<Longrightarrow>
     campaignTable s' = campaignTable s \<and> adGroupTable s' = adGroupTable s"
  by (auto simp: createKeyword_def prisma_keyword_create_def Let_def
           split: if_splits option.splits)

lemma createKeyword_bid_rejected:
  "\<not> truthy_bool (CreateKeywordDto.isNegative data) \<Longrightarrow> CreateKeywordDto.bid data \<le> 0 \<Longrightarrow>
     createKeyword s data = (Inl (ValidationError ''Bid must be greater than 0''), s)"
  by (simp add: createKeyword_def)

lemma createKeyword_created:
  assumes bid_ok: "truthy_bool (CreateKeywordDto.isNegative data) \<or> 0 < CreateKeywordDto.bid data"
    and text_ok: "trim (CreateKeywordDto.keywordText data) \<noteq> []"
    and campaign_ok: "campaignTable s (CreateKeywordDto.campaignId data) \<noteq> None"
    and group_ok: "CreateKeywordDto.adGroupId data = None \<or>
              (\<exists>g a. CreateKeywordDto.adGroupId data = Some g \<and> g \<noteq> 0 \<and>
                     adGroupTable s g = Some a \<and>
                     AdGroup.campaignId a = CreateKeywordDto.campaignId data)"
  shows "createKeyword s data =
           (case prisma_keyword_create s
                   (CreateKeywordDto.campaignId data) (CreateKeywordDto.adGroupId data)
                   (trim (CreateKeywordDto.keywordText data)) (CreateKeywordDto.matchType data)
                   (CreateKeywordDto.bid data) (truthy_bool (CreateKeywordDto.isNegative data)) of
              (k, s') \<Rightarrow> (Inr k, s'))"
  using assms by (auto simp: createKeyword_def split: option.splits prod.splits)

lemma str_Cons_nonempty: "str (c # cs) \<noteq> []"
  by (simp add: str_def)

text \<open>
  Claim C1. A \<open>createKeyword\<close> call whose \<open>isNegative\<close> is false (or absent) and whose
  bid is at most 0 fails with the ValidationError of the bid check and leaves the store as
  it was. When the bid is positive, the trimmed text is not empty, the campaign exists and
  the ad group, if one is given, exists under that campaign, the call succeeds: it appends
  one row to the keyword table and returns it, with the next id, status ACTIVE, all five
  counters zero, the text trimmed and the other columns as given.
\<close>

theorem createKeyword_positive_bid_rule:
  assumes "\<not> truthy_bool (CreateKeywordDto.isNegative data)"
  shows "(CreateKeywordDto.bid data \<le> 0 \<longrightarrow>
            createKeyword s data = (Inl (ValidationError ''Bid must be greater than 0''), s))
       \<and> (0 < CreateKeywordDto.bid data
            \<and> trim (CreateKeywordDto.keywordText data) \<noteq> []
            \<and> campaignTable s (CreateKeywordDto.campaignId data) \<noteq> None
            \<and> (CreateKeywordDto.adGroupId data = None \<or>
                 (\<exists>g a. CreateKeywordDto.adGroupId data = Some g \<and> g \<noteq> 0 \<and>
                        adGroupTable s g = Some a \<and>
                        AdGroup.campaignId a = CreateKeywordDto.campaignId data))
          \<longrightarrow> (\<exists>k. createKeyword s data =
                      (Inr k, s\<lparr> keywordTable := keywordTable s @ [k],
                                 keywordSeq := keywordSeq s + 1 \<rparr>)
                  \<and> id_kw k = keywordSeq s + 1
                  \<and> Keyword.status k = ACTIVE
                  \<and> impressions k = 0 \<and> clicks k = 0 \<and> conversions k = 0
                  \<and> spend k = 0 \<and> sales k = 0
                  \<and> Keyword.keywordText k = trim (CreateKeywordDto.keywordText data)
                  \<and> Keyword.campaignId k = CreateKeywordDto.campaignId data
                  \<and> Keyword.adGroupId k = CreateKeywordDto.adGroupId data
                  \<and> Keyword.matchType k = CreateKeywordDto.matchType data
                  \<and> Keyword.bid k = CreateKeywordDto.bid data
                  \<and> \<not> Keyword.isNegative k))"
proof (intro conjI impI)
  assume "CreateKeywordDto.bid data \<le> 0"
  with assms show "createKeyword s data = (Inl (ValidationError ''Bid must be greater than 0''), s)"
    by (rule createKeyword_bid_rejected)
next
  assume pre: "0 < CreateKeywordDto.bid data
            \<and> trim (CreateKeywordDto.keywordText data) \<noteq> []
            \<and> campaignTable s (CreateKeywordDto.campaignId data) \<noteq> None
            \<and> (CreateKeywordDto.adGroupId data = None \<or>
                 (\<exists>g a. CreateKeywordDto.adGroupId data = Some g \<and> g \<noteq> 0 \<and>
                        adGroupTable s g = Some a \<and>
                        AdGroup.campaignId a = CreateKeywordDto.campaignId data))"
  then have "createKeyword s data =
           (case prisma_keyword_create s
                   (CreateKeywordDto.campaignId data) (CreateKeywordDto.adGroupId data)
                   (trim (CreateKeywordDto.keywordText data)) (CreateKeywordDto.matchType data)
                   (CreateKeywordDto.bid data) (truthy_bool (CreateKeywordDto.isNegative data)) of
              (k, s') \<Rightarrow> (Inr k, s'))"
    by (intro createKeyword_created) simp_all
  with assms show "\<exists>k. createKeyword s data =
                      (Inr k, s\<lparr> keywordTable := keywordTable s @ [k],
                                 keywordSeq := keywordSeq s + 1 \<rparr>)
                  \<and> id_kw k = keywordSeq s + 1
                  \<and> Keyword.status k = ACTIVE
                  \<and> impressions k = 0 \<and> clicks k = 0 \<and> conversions k = 0
                  \<and> spend k = 0 \<and> sales k = 0
                  \<and> Keyword.keywordText k = trim (CreateKeywordDto.keywordText data)
                  \<and> Keyword.campaignId k = CreateKeywordDto.campaignId data
                  \<and> Keyword.adGroupId k = CreateKeywordDto.adGroupId data
                  \<and> Keyword.matchType k = CreateKeywordDto.matchType data
                  \<and> Keyword.bid k = CreateKeywordDto.bid data
                  \<and> \<not> Keyword.isNegative k"
    by (simp add: prisma_keyword_create_def Let_def)
qed

theorem createKeyword_positive_bid_rule_witness:
  "createKeyword demo_store (dto_sandals\<lparr> CreateKeywordDto.bid := 0 \<rparr>)
     = (Inl (ValidationError ''Bid must be greater than 0''), demo_store)
   \<and> (\<exists>k. createKeyword demo_store dto_sandals =
            (Inr k, demo_store\<lparr> keywordTable := [kw_shoes, kw_free, kw_boots, k],
                                keywordSeq := 4 \<rparr>)
        \<and> id_kw k = 4 \<and> Keyword.status k = ACTIVE
        \<and> impressions k = 0 \<and> clicks k = 0 \<and> conversions k = 0 \<and> spend k = 0 \<and> sales k = 0
        \<and> Keyword.keywordText k = str ''sandals''
        \<and> Keyword.bid k = 3 / 4)"
proof -
  have neg: "\<not> truthy_bool (CreateKeywordDto.isNegative dto_sandals)"
       "\<not> truthy_bool (CreateKeywordDto.isNegative (dto_sandals\<lparr> CreateKeywordDto.bid := 0 \<rparr>))"
    by (simp_all add: dto_sandals_def)
  have pre: "0 < CreateKeywordDto.bid dto_sandals
            \<and> trim (CreateKeywordDto.keywordText dto_sandals) \<noteq> []
            \<and> campaignTable demo_store (CreateKeywordDto.campaignId dto_sandals) \<noteq> None
            \<and> (CreateKeywordDto.adGroupId dto_sandals = None \<or>
                 (\<exists>g a. CreateKeywordDto.adGroupId dto_sandals = Some g \<and> g \<noteq> 0 \<and>
                        adGroupTable demo_store g = Some a \<and>
                        AdGroup.campaignId a = CreateKeywordDto.campaignId dto_sandals))"
    by (simp add: dto_sandals_def demo_store_def str_sandals str_Cons_nonempty)
  have trimmed: "trim (CreateKeywordDto.keywordText dto_sandals) = str ''sandals''"
    by (simp add: dto_sandals_def str_sandals)
  have seq: "keywordSeq demo_store + 1 = 4" "keywordTable demo_store = [kw_shoes, kw_free, kw_boots]"
       "CreateKeywordDto.bid dto_sandals = 3 / 4"
    by (simp_all add: demo_store_def dto_sandals_def)
  from createKeyword_positive_bid_rule [OF neg(2), of demo_store]
  have a: "createKeyword demo_store (dto_sandals\<lparr> CreateKeywordDto.bid := 0 \<rparr>)
     = (Inl (ValidationError ''Bid must be greater than 0''), demo_store)"
    by simp
  from createKeyword_positive_bid_rule [OF neg(1), of demo_store] pre
  have b: "\<exists>k. createKeyword demo_store dto_sandals =
            (Inr k, demo_store\<lparr> keywordTable := keywordTable demo_store @ [k],
                                keywordSeq := keywordSeq demo_store + 1 \<rparr>)
        \<and> id_kw k = keywordSeq demo_store + 1 \<and> Keyword.status k = ACTIVE
        \<and> impressions k = 0 \<and> clicks k = 0 \<and> conversions k = 0 \<and> spend k = 0 \<and> sales k = 0
        \<and> Keyword.keywordText k = trim (CreateKeywordDto.keywordText dto_sandals)
        \<and> Keyword.bid k = CreateKeywordDto.bid dto_sandals"
    by blast
  from a b show ?thesis unfolding trimmed seq by simp
qed

subsection \<open>Looking a keyword up and updating it\<close>

lemma demo_store_unique_ids: "unique_ids demo_store"
  by (simp add: unique_ids_def demo_store_def kw_shoes_def kw_free_def kw_boots_def)

lemma find_scoped_unique:
  assumes "distinct (map id_kw ks)"
    and "List.find (\<lambda>k. id_kw k = i \<and> Keyword.campaignId k = cid) ks = Some k"
  shows "List.find (\<lambda>k. id_kw k = i) ks = Some k"
  using assms
proof (induction ks)
  case Nil
  then show ?case by simp
next
  case (Cons a ks)
  show ?case
  proof (cases "id_kw a = i")
    case True
    show ?thesis
    proof (cases "Keyword.campaignId a = cid")
      case True
      with \<open>id_kw a = i\<close> Cons.prems show ?thesis by simp
    next
      case False
      with Cons.prems have "List.find (\<lambda>k. id_kw k = i \<and> Keyword.campaignId k = cid) ks = Some k"
        by simp
      then have "k \<in> set ks" "id_kw k = i"
        by (auto simp: find_Some_iff)
      then have "id_kw a \<in> id_kw ` set ks"
        using True by force
      with Cons.prems(1) show ?thesis by simp
    qed
  next
    case False
    with Cons show ?thesis by simp
  qed
qed

lemma getKeywordById_Inr:
  "getKeywordById s i cid = (Inr k, s') \<longleftrightarrow>
     prisma_keyword_findFirst s i cid = Some k \<and> s' = s"
  by (auto simp: getKeywordById_def split: option.splits)

lemma getKeywordById_Inl:
  "getKeywordById s i cid = (Inl e, s') \<longleftrightarrow>
     prisma_keyword_findFirst s i cid = None \<and> e = NotFoundError ''Keyword not found'' \<and> s' = s"
  by (auto simp: getKeywordById_def split: option.splits)

lemma findFirst_props:
  "prisma_keyword_findFirst s i cid = Some k \<Longrightarrow>
     k \<in> set (keywordTable s) \<and> id_kw k = i \<and> Keyword.campaignId k = cid"
  by (auto simp: prisma_keyword_findFirst_def find_Some_iff)

lemma prisma_keyword_update_found:
  assumes "unique_ids s" and "prisma_keyword_findFirst s i cid = Some k"
  shows "prisma_keyword_update s i f =
           (Inr (f k), s\<lparr> keywordTable := map (\<lambda>r. if id_kw r = i then f r else r) (keywordTable s) \<rparr>)"
proof -
  from assms have "List.find (\<lambda>k. id_kw k = i) (keywordTable s) = Some k"
    unfolding unique_ids_def prisma_keyword_findFirst_def
    by (blast intro: find_scoped_unique)
  then show ?thesis by (simp add: prisma_keyword_update_def)
qed

subsection \<open>Updating a keyword\<close>

lemma updateKeyword_bid_rejected:
  assumes "prisma_keyword_findFirst s i cid = Some existingKeyword"
    and "UpdateKeywordDto.bid data = Some b"
    and "\<not> (case UpdateKeywordDto.isNegative data of
                Some n \<Rightarrow> n | None \<Rightarrow> Keyword.isNegative existingKeyword)"
    and "b \<le> 0"
  shows "updateKeyword s i cid data = (Inl (ValidationError ''Bid must be greater than 0''), s)"
  using assms by (simp add: updateKeyword_def getKeywordById_def)

lemma updateKeyword_applied:
  assumes "unique_ids s"
    and "prisma_keyword_findFirst s i cid = Some existingKeyword"
    and "case UpdateKeywordDto.bid data of
           Some b \<Rightarrow> (case UpdateKeywordDto.isNegative data of
                        Some n \<Rightarrow> n | None \<Rightarrow> Keyword.isNegative existingKeyword) \<or> 0 < b
         | None \<Rightarrow> True"
    and "case UpdateKeywordDto.keywordText data of Some t \<Rightarrow> trim t \<noteq> [] | None \<Rightarrow> True"
  shows "updateKeyword s i cid data =
           (Inr (update_data data existingKeyword),
            s\<lparr> keywordTable :=
                 map (\<lambda>r. if id_kw r = i then update_data data r else r) (keywordTable s) \<rparr>)"
proof -
  have "prisma_keyword_update s i (update_data data) =
           (Inr (update_data data existingKeyword),
            s\<lparr> keywordTable :=
                 map (\<lambda>r. if id_kw r = i then update_data data r else r) (keywordTable s) \<rparr>)"
    using assms(1,2) by (rule prisma_keyword_update_found)
  with assms(2-) show ?thesis
    by (auto simp: updateKeyword_def getKeywordById_def Let_def split: option.splits)
qed

lemma update_data_bid:
  "Keyword.bid (update_data data k) =
     (case UpdateKeywordDto.bid data of Some b \<Rightarrow> b | None \<Rightarrow> Keyword.bid k)"
  by (simp add: update_data_def Let_def split: option.splits)

lemma update_data_isNegative:
  "Keyword.isNegative (update_data data k) =
     (case UpdateKeywordDto.isNegative data of Some n \<Rightarrow> n | None \<Rightarrow> Keyword.isNegative k)"
  by (simp add: update_data_def Let_def split: option.splits)

lemma update_data_keywordText:
  "Keyword.keywordText (update_data data k) =
     (case UpdateKeywordDto.keywordText data of
        Some t \<Rightarrow> if t \<noteq> [] then trim t else Keyword.keywordText k
      | None \<Rightarrow> Keyword.keywordText k)"
  by (simp add: update_data_def Let_def split: option.splits)

lemma update_data_matchType:
  "Keyword.matchType (update_data data k) =
     (case UpdateKeywordDto.matchType data of Some m \<Rightarrow> m | None \<Rightarrow> Keyword.matchType k)"
  by (simp add: update_data_def Let_def split: option.splits)

lemma update_data_status:
  "Keyword.status (update_data data k) =
     (case UpdateKeywordDto.status data of Some st \<Rightarrow> st | None \<Rightarrow> Keyword.status k)"
  by (simp add: update_data_def Let_def split: option.splits)

lemma update_data_fixed:
  "id_kw (update_data data k) = id_kw k"
  "Keyword.campaignId (update_data data k) = Keyword.campaignId k"
  "Keyword.adGroupId (update_data data k) = Keyword.adGroupId k"
  "impressions (update_data data k) = impressions k"
  "clicks (update_data data k) = clicks k"
  "conversions (update_data data k) = conversions k"
  "spend (update_data data k) = spend k"
  "sales (update_data data k) = sales k"
  by (simp_all add: update_data_def Let_def split: option.splits)

lemma find_map_invariant:
  assumes "\<And>r. P (g r) = P r"
  shows "List.find P (map g ks) = map_option g (List.find P ks)"
  using assms by (induction ks) simp_all

lemma findFirst_after_patch:
  assumes "\<And>r. id_kw (f r) = id_kw r" and "\<And>r. Keyword.campaignId (f r) = Keyword.campaignId r"
  shows "prisma_keyword_findFirst
           (s\<lparr> keywordTable := map (\<lambda>r. if id_kw r = i then f r else r) (keywordTable s) \<rparr>) j cid
         = map_option (\<lambda>r. if id_kw r = i then f r else r) (prisma_keyword_findFirst s j cid)"
  unfolding prisma_keyword_findFirst_def
  by (simp add: find_map_invariant assms)

text \<open>
  Claim C2. When the keyword exists under the campaign and the patch contains a bid, the
  bid is checked against the resulting \<open>isNegative\<close>: the patch's value when it has one,
  the stored one otherwise. If that value is false and the bid is at most 0, the call fails
  with the ValidationError of the bid check and the store is unchanged. If it is true, the
  bid check lets every bid pass: the call never fails with that error, and when the text of
  the patch, if any, is not blank, the call succeeds and the stored row has the bid of the
  patch.
\<close>

theorem updateKeyword_bid_against_resulting_isNegative:
  assumes "unique_ids s"
    and "prisma_keyword_findFirst s i cid = Some existingKeyword"
    and "UpdateKeywordDto.bid data = Some b"
    and "willBeNegative = (case UpdateKeywordDto.isNegative data of
                             Some n \<Rightarrow> n | None \<Rightarrow> Keyword.isNegative existingKeyword)"
  shows "(\<not> willBeNegative \<and> b \<le> 0 \<longrightarrow>
            updateKeyword s i cid data =
              (Inl (ValidationError ''Bid must be greater than 0''), s))
       \<and> (willBeNegative \<longrightarrow>
            fst (updateKeyword s i cid data) \<noteq> Inl (ValidationError ''Bid must be greater than 0'')
          \<and> ((case UpdateKeywordDto.keywordText data of
                 Some t \<Rightarrow> trim t \<noteq> [] | None \<Rightarrow> True) \<longrightarrow>
               (\<exists>k s'. updateKeyword s i cid data = (Inr k, s')
                    \<and> prisma_keyword_findFirst s' i cid = Some k
                    \<and> Keyword.bid k = b \<and> Keyword.isNegative k)))"
proof (intro conjI impI)
  assume "\<not> willBeNegative \<and> b \<le> 0"
  then have "b \<le> 0"
    and "\<not> (case UpdateKeywordDto.isNegative data of
              Some n \<Rightarrow> n | None \<Rightarrow> Keyword.isNegative existingKeyword)"
    using assms(4) by blast+
  with assms(2,3) show "updateKeyword s i cid data =
              (Inl (ValidationError ''Bid must be greater than 0''), s)"
    by (intro updateKeyword_bid_rejected)
next
  assume neg: willBeNegative
  show "fst (updateKeyword s i cid data) \<noteq> Inl (ValidationError ''Bid must be greater than 0'')"
  proof (cases "case UpdateKeywordDto.keywordText data of Some t \<Rightarrow> trim t \<noteq> [] | None \<Rightarrow> True")
    case True
    with assms neg have "updateKeyword s i cid data =
           (Inr (update_data data existingKeyword),
            s\<lparr> keywordTable :=
                 map (\<lambda>r. if id_kw r = i then update_data data r else r) (keywordTable s) \<rparr>)"
      by (intro updateKeyword_applied) simp_all
    then show ?thesis by simp
  next
    case False
    with assms neg have "updateKeyword s i cid data =
        (Inl (ValidationError ''Keyword text cannot be empty''), s)"
      by (auto simp: updateKeyword_def getKeywordById_def split: option.splits)
    then show ?thesis by simp
  qed
next
  assume neg: willBeNegative
    and text_ok: "case UpdateKeywordDto.keywordText data of Some t \<Rightarrow> trim t \<noteq> [] | None \<Rightarrow> True"
  let ?s' = "s\<lparr> keywordTable :=
                 map (\<lambda>r. if id_kw r = i then update_data data r else r) (keywordTable s) \<rparr>"
  from assms neg text_ok have run: "updateKeyword s i cid data =
           (Inr (update_data data existingKeyword), ?s')"
    by (intro updateKeyword_applied) simp_all
  have "id_kw existingKeyword = i"
    using assms(2) by (simp add: findFirst_props)
  then have "prisma_keyword_findFirst ?s' i cid = Some (update_data data existingKeyword)"
    using assms(2) by (simp add: findFirst_after_patch update_data_fixed)
  with run assms neg show "\<exists>k s'. updateKeyword s i cid data = (Inr k, s')
                    \<and> prisma_keyword_findFirst s' i cid = Some k
                    \<and> Keyword.bid k = b \<and> Keyword.isNegative k"
    by (simp add: update_data_bid update_data_isNegative)
qed

lemma demo_store_findFirst:
  "prisma_keyword_findFirst demo_store 1 1 = Some kw_shoes"
  "prisma_keyword_findFirst demo_store 2 1 = Some kw_free"
  "prisma_keyword_findFirst demo_store 3 2 = Some kw_boots"
  "prisma_keyword_findFirst demo_store 3 1 = None"
  "prisma_keyword_findFirst demo_store 7 1 = None"
  by (simp_all add: prisma_keyword_findFirst_def demo_store_def kw_shoes_def kw_free_def
        kw_boots_def)

theorem updateKeyword_bid_against_resulting_isNegative_witness:
  "updateKeyword demo_store 1 1 (patch_bid 0) =
     (Inl (ValidationError ''Bid must be greater than 0''), demo_store)
   \<and> (\<exists>k s'. updateKeyword demo_store 2 1 (patch_bid (- 5)) = (Inr k, s')
          \<and> prisma_keyword_findFirst s' 2 1 = Some k
          \<and> Keyword.bid k = - 5 \<and> Keyword.isNegative k)"
proof -
  have shoes: "\<not> (case UpdateKeywordDto.isNegative (patch_bid 0) of
                     Some n \<Rightarrow> n | None \<Rightarrow> Keyword.isNegative kw_shoes)"
    by (simp add: patch_bid_def kw_shoes_def)
  have free: "case UpdateKeywordDto.isNegative (patch_bid (- 5)) of
                Some n \<Rightarrow> n | None \<Rightarrow> Keyword.isNegative kw_free"
    by (simp add: patch_bid_def kw_free_def)
  have bids: "UpdateKeywordDto.bid (patch_bid 0) = Some 0"
    "UpdateKeywordDto.bid (patch_bid (- 5)) = Some (- 5)"
    "UpdateKeywordDto.keywordText (patch_bid (- 5)) = None"
    by (simp_all add: patch_bid_def)
  from updateKeyword_bid_against_resulting_isNegative
         [OF demo_store_unique_ids demo_store_findFirst(1) bids(1) refl] shoes
  have a: "updateKeyword demo_store 1 1 (patch_bid 0) =
     (Inl (ValidationError ''Bid must be greater than 0''), demo_store)"
    by simp
  from updateKeyword_bid_against_resulting_isNegative
         [OF demo_store_unique_ids demo_store_findFirst(2) bids(2) refl] free
  have b: "\<exists>k s'. updateKeyword demo_store 2 1 (patch_bid (- 5)) = (Inr k, s')
          \<and> prisma_keyword_findFirst s' 2 1 = Some k
          \<and> Keyword.bid k = - 5 \<and> Keyword.isNegative k"
    by (simp add: bids(3))
  from a b show ?thesis by simp
qed

subsection \<open>The ad group of a new keyword\<close>

lemma createKeyword_failure_keeps_store:
  "createKeyword s data = (Inl e, s') \<Longrightarrow> s' = s"
  by (auto simp: createKeyword_def prisma_keyword_create_def Let_def
           split: if_splits option.splits)

lemma createKeyword_foreign_adGroup:
  assumes "CreateKeywordDto.adGroupId data = Some g" and "g \<noteq> 0"
    and "adGroupTable s g = Some a"
    and "AdGroup.campaignId a \<noteq> CreateKeywordDto.campaignId data"
  shows "createKeyword s data =
          (Inl (if \<not> truthy_bool (CreateKeywordDto.isNegative data) \<and> CreateKeywordDto.bid data \<le> 0
                then ValidationError ''Bid must be greater than 0''
                else if trim (CreateKeywordDto.keywordText data) = []
                then ValidationError ''Keyword text cannot be empty''
                else if campaignTable s (CreateKeywordDto.campaignId data) = None
                then NotFoundError ''Campaign not found''
                else ValidationError ''Ad group does not belong to the specified campaign''), s)"
  using assms by (auto simp: createKeyword_def split: option.splits)

lemma createKeyword_missing_adGroup:
  assumes "CreateKeywordDto.adGroupId data = Some g" and "g \<noteq> 0"
    and "adGroupTable s g = None"
  shows "createKeyword s data =
          (Inl (if \<not> truthy_bool (CreateKeywordDto.isNegative data) \<and> CreateKeywordDto.bid data \<le> 0
                then ValidationError ''Bid must be greater than 0''
                else if trim (CreateKeywordDto.keywordText data) = []
                then ValidationError ''Keyword text cannot be empty''
                else if campaignTable s (CreateKeywordDto.campaignId data) = None
                then NotFoundError ''Campaign not found''
                else NotFoundError ''Ad group not found''), s)"
  using assms by (auto simp: createKeyword_def split: option.splits)

text \<open>
  Claim C3, as the code has it. A \<open>createKeyword\<close> call with a non-zero \<open>adGroupId\<close> whose
  ad group exists under another campaign always fails and leaves the store unchanged; the
  error is a ValidationError whenever the campaign of the call exists, and it is the
  ownership error when the bid and text checks pass as well. If the campaign of the call
  does not exist and the bid and text checks pass, the error is the NotFoundError of the
  campaign lookup, which comes first. When the ad group does not exist, the call fails
  and leaves the store unchanged, with a NotFoundError provided the bid and text checks
  pass.
\<close>

theorem createKeyword_adGroup_ownership:
  assumes "CreateKeywordDto.adGroupId data = Some g" and "g \<noteq> 0"
    and "checks_pass \<longleftrightarrow>
           (truthy_bool (CreateKeywordDto.isNegative data) \<or> 0 < CreateKeywordDto.bid data)
           \<and> trim (CreateKeywordDto.keywordText data) \<noteq> []"
  shows "(\<forall>a. adGroupTable s g = Some a
              \<and> AdGroup.campaignId a \<noteq> CreateKeywordDto.campaignId data \<longrightarrow>
            snd (createKeyword s data) = s
          \<and> (campaignTable s (CreateKeywordDto.campaignId data) \<noteq> None \<longrightarrow>
               (\<exists>m. fst (createKeyword s data) = Inl (ValidationError m)))
          \<and> (campaignTable s (CreateKeywordDto.campaignId data) \<noteq> None \<and> checks_pass \<longrightarrow>
               fst (createKeyword s data) =
                 Inl (ValidationError ''Ad group does not belong to the specified campaign''))
          \<and> (campaignTable s (CreateKeywordDto.campaignId data) = None \<and> checks_pass \<longrightarrow>
               fst (createKeyword s data) = Inl (NotFoundError ''Campaign not found'')))
       \<and> (adGroupTable s g = None \<longrightarrow>
            snd (createKeyword s data) = s
          \<and> (checks_pass \<longrightarrow> (\<exists>m. fst (createKeyword s data) = Inl (NotFoundError m)))
          \<and> (campaignTable s (CreateKeywordDto.campaignId data) \<noteq> None \<and> checks_pass \<longrightarrow>
               fst (createKeyword s data) = Inl (NotFoundError ''Ad group not found'')))"
proof (intro conjI allI impI)
  fix a
  assume "adGroupTable s g = Some a \<and> AdGroup.campaignId a \<noteq> CreateKeywordDto.campaignId data"
  then have foreign: "adGroupTable s g = Some a"
    "AdGroup.campaignId a \<noteq> CreateKeywordDto.campaignId data"
    by simp_all
  have run: "createKeyword s data =
          (Inl (if \<not> truthy_bool (CreateKeywordDto.isNegative data) \<and> CreateKeywordDto.bid data \<le> 0
                then ValidationError ''Bid must be greater than 0''
                else if trim (CreateKeywordDto.keywordText data) = []
                then ValidationError ''Keyword text cannot be empty''
                else if campaignTable s (CreateKeywordDto.campaignId data) = None
                then NotFoundError ''Campaign not found''
                else ValidationError ''Ad group does not belong to the specified campaign''), s)"
    using assms(1,2) foreign by (rule createKeyword_foreign_adGroup)
  show "snd (createKeyword s data) = s"
    by (simp add: run)
  {
    assume "campaignTable s (CreateKeywordDto.campaignId data) \<noteq> None"
    then show "\<exists>m. fst (createKeyword s data) = Inl (ValidationError m)"
      by (auto simp: run)
  }
  {
    assume "campaignTable s (CreateKeywordDto.campaignId data) \<noteq> None \<and> checks_pass"
    then show "fst (createKeyword s data) =
                 Inl (ValidationError ''Ad group does not belong to the specified campaign'')"
      using assms(3) by (auto simp: run)
  }
  {
    assume "campaignTable s (CreateKeywordDto.campaignId data) = None \<and> checks_pass"
    then show "fst (createKeyword s data) = Inl (NotFoundError ''Campaign not found'')"
      using assms(3) by (auto simp: run)
  }
next
  assume missing: "adGroupTable s g = None"
  have run: "createKeyword s data =
          (Inl (if \<not> truthy_bool (CreateKeywordDto.isNegative data) \<and> CreateKeywordDto.bid data \<le> 0
                then ValidationError ''Bid must be greater than 0''
                else if trim (CreateKeywordDto.keywordText data) = []
                then ValidationError ''Keyword text cannot be empty''
                else if campaignTable s (CreateKeywordDto.campaignId data) = None
                then NotFoundError ''Campaign not found''
                else NotFoundError ''Ad group not found''), s)"
    using assms(1,2) missing by (rule createKeyword_missing_adGroup)
  show "snd (createKeyword s data) = s"
    by (simp add: run)
  {
    assume checks_pass
    then show "\<exists>m. fst (createKeyword s data) = Inl (NotFoundError m)"
      using assms(3) by (auto simp: run)
  }
  {
    assume "campaignTable s (CreateKeywordDto.campaignId data) \<noteq> None \<and> checks_pass"
    then show "fst (createKeyword s data) = Inl (NotFoundError ''Ad group not found'')"
      using assms(3) by (auto simp: run)
  }
qed

theorem createKeyword_adGroup_ownership_witness:
  "snd (createKeyword demo_store (dto_sandals\<lparr> CreateKeywordDto.campaignId := 2 \<rparr>)) = demo_store
   \<and> fst (createKeyword demo_store (dto_sandals\<lparr> CreateKeywordDto.campaignId := 2 \<rparr>)) =
         Inl (ValidationError ''Ad group does not belong to the specified campaign'')
   \<and> snd (createKeyword demo_store (dto_sandals\<lparr> CreateKeywordDto.adGroupId := Some 9 \<rparr>))
         = demo_store
   \<and> fst (createKeyword demo_store (dto_sandals\<lparr> CreateKeywordDto.adGroupId := Some 9 \<rparr>)) =
         Inl (NotFoundError ''Ad group not found'')"
proof -
  let ?foreign = "dto_sandals\<lparr> CreateKeywordDto.campaignId := 2 \<rparr>"
  let ?missing = "dto_sandals\<lparr> CreateKeywordDto.adGroupId := Some 9 \<rparr>"
  have group: "CreateKeywordDto.adGroupId ?foreign = Some 1" "(1::int) \<noteq> 0"
    "CreateKeywordDto.adGroupId ?missing = Some 9" "(9::int) \<noteq> 0"
    by (simp_all add: dto_sandals_def)
  have checks: "(truthy_bool (CreateKeywordDto.isNegative ?foreign) \<or> 0 < CreateKeywordDto.bid ?foreign)
           \<and> trim (CreateKeywordDto.keywordText ?foreign) \<noteq> []"
    "(truthy_bool (CreateKeywordDto.isNegative ?missing) \<or> 0 < CreateKeywordDto.bid ?missing)
           \<and> trim (CreateKeywordDto.keywordText ?missing) \<noteq> []"
    by (simp_all add: dto_sandals_def str_sandals str_Cons_nonempty)
  have tables: "adGroupTable demo_store 1 =
        Some \<lparr> AdGroup.campaignId = 1, AdGroup.name = str ''Footwear'', defaultBid = 1,
               AdGroup.status = ACTIVE \<rparr>"
    "adGroupTable demo_store 9 = None"
    "campaignTable demo_store (CreateKeywordDto.campaignId ?foreign) \<noteq> None"
    "campaignTable demo_store (CreateKeywordDto.campaignId ?missing) \<noteq> None"
    by (simp_all add: demo_store_def dto_sandals_def)
  have a: "snd (createKeyword demo_store ?foreign) = demo_store
     \<and> fst (createKeyword demo_store ?foreign) =
         Inl (ValidationError ''Ad group does not belong to the specified campaign'')"
    using createKeyword_adGroup_ownership [OF group(1,2) refl, of demo_store] checks(1) tables(1,3)
    by (simp add: dto_sandals_def)
  have b: "snd (createKeyword demo_store ?missing) = demo_store
     \<and> fst (createKeyword demo_store ?missing) = Inl (NotFoundError ''Ad group not found'')"
    using createKeyword_adGroup_ownership [OF group(3,4) refl, of demo_store] checks(2) tables(2,4)
    by simp
  from a b show ?thesis by simp
qed

theorem createKeyword_adGroup_ownership_counterexample:
  "map_option AdGroup.campaignId (adGroupTable demo_store 1) = Some 1
   \<and> CreateKeywordDto.adGroupId (dto_sandals\<lparr> CreateKeywordDto.campaignId := 3 \<rparr>) = Some 1
   \<and> CreateKeywordDto.campaignId (dto_sandals\<lparr> CreateKeywordDto.campaignId := 3 \<rparr>) = 3
   \<and> createKeyword demo_store (dto_sandals\<lparr> CreateKeywordDto.campaignId := 3 \<rparr>) =
         (Inl (NotFoundError ''Campaign not found''), demo_store)
   \<and> adGroupTable demo_store 9 = None
   \<and> createKeyword demo_store
         (dto_sandals\<lparr> CreateKeywordDto.adGroupId := Some 9, CreateKeywordDto.bid := 0 \<rparr>) =
         (Inl (ValidationError ''Bid must be greater than 0''), demo_store)"
  by (simp add: createKeyword_def dto_sandals_def demo_store_def str_sandals str_Cons_nonempty)

subsection \<open>The stored bid\<close>

lemma createKeyword_Inr_bid:
  assumes "createKeyword s data = (Inr k, s')"
  shows "Keyword.bid k = CreateKeywordDto.bid data
       \<and> Keyword.isNegative k = truthy_bool (CreateKeywordDto.isNegative data)
       \<and> (truthy_bool (CreateKeywordDto.isNegative data) \<or> 0 < CreateKeywordDto.bid data)"
  using assms
  by (auto simp: createKeyword_def prisma_keyword_create_def Let_def
           split: if_splits option.splits)

lemma updateKeyword_Inr:
  assumes "unique_ids s" and "updateKeyword s i cid data = (Inr k, s')"
  shows "\<exists>existingKeyword.
           prisma_keyword_findFirst s i cid = Some existingKeyword
         \<and> k = update_data data existingKeyword
         \<and> s' = s\<lparr> keywordTable :=
                     map (\<lambda>r. if id_kw r = i then update_data data r else r) (keywordTable s) \<rparr>
         \<and> (case UpdateKeywordDto.bid data of
               Some b \<Rightarrow> (case UpdateKeywordDto.isNegative data of
                            Some n \<Rightarrow> n | None \<Rightarrow> Keyword.isNegative existingKeyword) \<or> 0 < b
             | None \<Rightarrow> True)
         \<and> (case UpdateKeywordDto.keywordText data of
               Some t \<Rightarrow> trim t \<noteq> [] | None \<Rightarrow> True)"
proof (cases "prisma_keyword_findFirst s i cid")
  case None
  with assms(2) show ?thesis
    by (simp add: updateKeyword_def getKeywordById_def)
next
  case (Some existingKeyword)
  have upd: "prisma_keyword_update s i (update_data data) =
           (Inr (update_data data existingKeyword),
            s\<lparr> keywordTable :=
                 map (\<lambda>r. if id_kw r = i then update_data data r else r) (keywordTable s) \<rparr>)"
    using assms(1) Some by (rule prisma_keyword_update_found)
  from assms(2) Some show ?thesis
    by (auto simp: updateKeyword_def getKeywordById_def upd Let_def
             split: if_splits option.splits)
qed

text \<open>
  Claim C4, as the code has it. The bid is checked only for a keyword that is not negative.
  A keyword that \<open>createKeyword\<close> stores is negative or has a bid above 0, and so is the
  row that \<open>updateKeyword\<close> stores when the patch contains a bid; the stored bid is the one
  given. For a negative keyword every bid is stored as it is given, a bid below 0 included.
\<close>

theorem stored_bid_positive_unless_negative:
  "(createKeyword s data = (Inr k, s') \<longrightarrow>
      Keyword.bid k = CreateKeywordDto.bid data
    \<and> (Keyword.isNegative k \<or> 0 < Keyword.bid k))
 \<and> (unique_ids s \<and> updateKeyword s i cid patch = (Inr k, s')
      \<and> UpdateKeywordDto.bid patch = Some b \<longrightarrow>
      Keyword.bid k = b \<and> (Keyword.isNegative k \<or> 0 < Keyword.bid k))
 \<and> (truthy_bool (CreateKeywordDto.isNegative data)
      \<and> trim (CreateKeywordDto.keywordText data) \<noteq> []
      \<and> campaignTable s (CreateKeywordDto.campaignId data) \<noteq> None
      \<and> CreateKeywordDto.adGroupId data = None \<longrightarrow>
      (\<exists>k' s''. createKeyword s data = (Inr k', s'')
          \<and> last (keywordTable s'') = k'
          \<and> Keyword.bid k' = CreateKeywordDto.bid data))"
proof (intro conjI impI)
  assume "createKeyword s data = (Inr k, s')"
  from createKeyword_Inr_bid [OF this]
  show "Keyword.bid k = CreateKeywordDto.bid data" and "Keyword.isNegative k \<or> 0 < Keyword.bid k"
    by auto
next
  assume a: "unique_ids s \<and> updateKeyword s i cid patch = (Inr k, s')
      \<and> UpdateKeywordDto.bid patch = Some b"
  then obtain existingKeyword where
    "k = update_data patch existingKeyword"
    "case UpdateKeywordDto.bid patch of
               Some b \<Rightarrow> (case UpdateKeywordDto.isNegative patch of
                            Some n \<Rightarrow> n | None \<Rightarrow> Keyword.isNegative existingKeyword) \<or> 0 < b
             | None \<Rightarrow> True"
    using updateKeyword_Inr [of s i cid patch k s'] by blast
  with a show "Keyword.bid k = b" and "Keyword.isNegative k \<or> 0 < Keyword.bid k"
    by (auto simp: update_data_bid update_data_isNegative)
next
  assume a: "truthy_bool (CreateKeywordDto.isNegative data)
      \<and> trim (CreateKeywordDto.keywordText data) \<noteq> []
      \<and> campaignTable s (CreateKeywordDto.campaignId data) \<noteq> None
      \<and> CreateKeywordDto.adGroupId data = None"
  then have "createKeyword s data =
           (case prisma_keyword_create s
                   (CreateKeywordDto.campaignId data) (CreateKeywordDto.adGroupId data)
                   (trim (CreateKeywordDto.keywordText data)) (CreateKeywordDto.matchType data)
                   (CreateKeywordDto.bid data) (truthy_bool (CreateKeywordDto.isNegative data)) of
              (k, s') \<Rightarrow> (Inr k, s'))"
    by (intro createKeyword_created) simp_all
  then show "\<exists>k' s''. createKeyword s data = (Inr k', s'')
          \<and> last (keywordTable s'') = k'
          \<and> Keyword.bid k' = CreateKeywordDto.bid data"
    by (simp add: prisma_keyword_create_def Let_def)
qed

lemma str_cheap: "trim (str ''cheap'') = str ''cheap''"
  by (simp add: trim_def str_def is_whitespace_def)

lemma createKeyword_cheap:
  "createKeyword demo_store dto_cheap =
     (Inr kw_cheap, demo_store\<lparr> keywordTable := [kw_shoes, kw_free, kw_boots, kw_cheap],
                                keywordSeq := 4 \<rparr>)"
  by (simp add: createKeyword_def prisma_keyword_create_def Let_def dto_cheap_def kw_cheap_def
        demo_store_def str_cheap str_Cons_nonempty)

theorem stored_bid_counterexample:
  "createKeyword demo_store dto_cheap =
     (Inr kw_cheap, demo_store\<lparr> keywordTable := [kw_shoes, kw_free, kw_boots, kw_cheap],
                                keywordSeq := 4 \<rparr>)
   \<and> Keyword.bid kw_cheap = - 5 \<and> \<not> 0 \<le> Keyword.bid kw_cheap"
  using createKeyword_cheap by (simp add: kw_cheap_def)

theorem stored_bid_positive_unless_negative_witness:
  "Keyword.bid kw_cheap = - 5 \<and> Keyword.isNegative kw_cheap
   \<and> (\<exists>k s'. updateKeyword demo_store 1 1 (patch_bid 5) = (Inr k, s') \<and> Keyword.bid k = 5
          \<and> 0 < Keyword.bid k)
   \<and> (\<exists>k' s''. createKeyword demo_store dto_cheap = (Inr k', s'')
          \<and> last (keywordTable s'') = k' \<and> Keyword.bid k' = - 5)"
proof -
  obtain k s' where upd: "updateKeyword demo_store 1 1 (patch_bid 5) = (Inr k, s')"
    using updateKeyword_applied [OF demo_store_unique_ids demo_store_findFirst(1), of "patch_bid 5"]
    by (simp add: patch_bid_def)
  have pb: "UpdateKeywordDto.bid (patch_bid 5) = Some 5"
    by (simp add: patch_bid_def)
  have neg: "\<not> Keyword.isNegative k"
    using updateKeyword_Inr [OF demo_store_unique_ids upd]
    by (auto simp: demo_store_findFirst update_data_isNegative patch_bid_def kw_shoes_def)
  have pre: "truthy_bool (CreateKeywordDto.isNegative dto_cheap)
      \<and> trim (CreateKeywordDto.keywordText dto_cheap) \<noteq> []
      \<and> campaignTable demo_store (CreateKeywordDto.campaignId dto_cheap) \<noteq> None
      \<and> CreateKeywordDto.adGroupId dto_cheap = None"
    by (simp add: dto_cheap_def demo_store_def str_cheap str_Cons_nonempty)
  have b5: "CreateKeywordDto.bid dto_cheap = - 5"
    by (simp add: dto_cheap_def)
  note rule = stored_bid_positive_unless_negative
    [of demo_store dto_cheap kw_cheap
        "demo_store\<lparr> keywordTable := [kw_shoes, kw_free, kw_boots, kw_cheap], keywordSeq := 4 \<rparr>"
        1 1 "patch_bid 5" 5]
  have a: "Keyword.bid kw_cheap = - 5 \<and> Keyword.isNegative kw_cheap"
    using rule createKeyword_cheap b5 by (simp add: kw_cheap_def)
  have c: "\<exists>k' s''. createKeyword demo_store dto_cheap = (Inr k', s'')
          \<and> last (keywordTable s'') = k' \<and> Keyword.bid k' = - 5"
    using rule pre b5 by simp
  have b: "\<exists>k s'. updateKeyword demo_store 1 1 (patch_bid 5) = (Inr k, s') \<and> Keyword.bid k = 5
          \<and> 0 < Keyword.bid k"
    using stored_bid_positive_unless_negative
      [of demo_store dto_cheap k s' 1 1 "patch_bid 5" 5] upd pb neg demo_store_unique_ids
    by auto
  from a b c show ?thesis by blast
qed

subsection \<open>Unique ids and the rows of the keyword table\<close>

lemma unique_row:
  assumes "distinct (map id_kw ks)" and "k \<in> set ks" and "r \<in> set ks" and "id_kw r = id_kw k"
  shows "r = k"
  using assms by (meson distinct_map inj_onD)

lemma findFirst_of_row:
  assumes "unique_ids s" and "k \<in> set (keywordTable s)"
  shows "prisma_keyword_findFirst s (id_kw k) (Keyword.campaignId k) = Some k"
proof -
  from assms(2) obtain r where
    r: "List.find (\<lambda>r. id_kw r = id_kw k \<and> Keyword.campaignId r = Keyword.campaignId k)
          (keywordTable s) = Some r"
    by (cases "List.find (\<lambda>r. id_kw r = id_kw k \<and> Keyword.campaignId r = Keyword.campaignId k)
          (keywordTable s)") (auto simp: find_None_iff)
  then have "r \<in> set (keywordTable s)" "id_kw r = id_kw k"
    by (auto simp: find_Some_iff)
  with assms have "r = k"
    unfolding unique_ids_def by (blast intro: unique_row)
  with r show ?thesis by (simp add: prisma_keyword_findFirst_def)
qed

lemma findFirst_other_campaign:
  assumes "unique_ids s" and "k \<in> set (keywordTable s)" and "Keyword.campaignId k \<noteq> cid"
  shows "prisma_keyword_findFirst s (id_kw k) cid = None"
proof -
  have "\<not> (id_kw r = id_kw k \<and> Keyword.campaignId r = cid)" if "r \<in> set (keywordTable s)" for r
    using assms that unfolding unique_ids_def by (metis unique_row)
  then show ?thesis
    by (simp add: prisma_keyword_findFirst_def find_None_iff)
qed

lemma findFirst_None_iff:
  "prisma_keyword_findFirst s i cid = None \<longleftrightarrow>
     \<not> (\<exists>k \<in> set (keywordTable s). id_kw k = i \<and> Keyword.campaignId k = cid)"
  by (auto simp: prisma_keyword_findFirst_def find_None_iff)

lemma unique_ids_patch:
  assumes "unique_ids s" and "\<And>r. id_kw (f r) = id_kw r"
  shows "unique_ids (s\<lparr> keywordTable := map (\<lambda>r. if id_kw r = i then f r else r) (keywordTable s) \<rparr>)"
proof -
  let ?g = "\<lambda>r. if id_kw r = i then f r else r"
  have ids: "id_kw (?g r) = id_kw r" for r
    by (simp add: assms(2))
  then have "map id_kw (map ?g ks) = map id_kw ks" for ks
    by (induction ks) simp_all
  moreover have "list_all (\<lambda>k. id_kw k \<le> n) (map ?g ks) = list_all (\<lambda>k. id_kw k \<le> n) ks" for ks n
    by (induction ks) (simp_all add: assms(2))
  ultimately show ?thesis
    using assms(1) unfolding unique_ids_def by (simp del: map_map)
qed

lemma unique_ids_createKeyword:
  assumes "unique_ids s"
  shows "unique_ids (snd (createKeyword s data))"
  using assms
  by (auto simp: createKeyword_def prisma_keyword_create_def Let_def unique_ids_def list_all_iff
           split: option.splits)

lemma updateKeyword_not_found:
  assumes "prisma_keyword_findFirst s i cid = None"
  shows "updateKeyword s i cid data = (Inl (NotFoundError ''Keyword not found''), s)"
  using assms by (simp add: updateKeyword_def getKeywordById_def)

lemma updateKeyword_cases:
  assumes "unique_ids s"
  shows "(\<exists>e. updateKeyword s i cid data = (Inl e, s))
       \<or> (\<exists>k. prisma_keyword_findFirst s i cid = Some k
              \<and> updateKeyword s i cid data =
                  (Inr (update_data data k),
                   s\<lparr> keywordTable :=
                        map (\<lambda>r. if id_kw r = i then update_data data r else r)
                          (keywordTable s) \<rparr>))"
proof (cases "prisma_keyword_findFirst s i cid")
  case None
  then show ?thesis by (simp add: updateKeyword_not_found)
next
  case (Some k)
  let ?bid_ok = "case UpdateKeywordDto.bid data of
           Some b \<Rightarrow> (case UpdateKeywordDto.isNegative data of
                        Some n \<Rightarrow> n | None \<Rightarrow> Keyword.isNegative k) \<or> 0 < b
         | None \<Rightarrow> True"
  let ?text_ok = "case UpdateKeywordDto.keywordText data of Some t \<Rightarrow> trim t \<noteq> [] | None \<Rightarrow> True"
  show ?thesis
  proof (cases "?bid_ok \<and> ?text_ok")
    case True
    with assms Some show ?thesis
      by (simp add: updateKeyword_applied)
  next
    case False
    then have "\<exists>e. updateKeyword s i cid data = (Inl e, s)"
      using Some
      by (cases "UpdateKeywordDto.bid data"; cases "UpdateKeywordDto.keywordText data")
         (auto simp: updateKeyword_def getKeywordById_def Let_def)
    then show ?thesis ..
  qed
qed

lemma unique_ids_updateKeyword:
  assumes "unique_ids s"
  shows "unique_ids (snd (updateKeyword s i cid data))"
  using updateKeyword_cases [OF assms, of i cid data] assms
  by (auto simp: unique_ids_patch update_data_fixed)

subsection \<open>Soft delete\<close>

lemma deleteKeyword_found:
  assumes "unique_ids s" and "prisma_keyword_findFirst s i cid = Some k"
  shows "deleteKeyword s i cid =
           (Inr (), s\<lparr> keywordTable :=
                        map (\<lambda>r. if id_kw r = i then r\<lparr> Keyword.status := ARCHIVED \<rparr> else r)
                          (keywordTable s) \<rparr>)"
  using assms(2) prisma_keyword_update_found [OF assms, of "\<lambda>k. k\<lparr> Keyword.status := ARCHIVED \<rparr>"]
  by (simp add: deleteKeyword_def getKeywordById_def)

lemma deleteKeyword_archived_row:
  assumes "unique_ids s" and "k \<in> set (keywordTable s)"
    and "deleteKeyword s (id_kw k) (Keyword.campaignId k) = (Inr (), s')"
  shows "prisma_keyword_findFirst s' (id_kw k) (Keyword.campaignId k)
           = Some (k\<lparr> Keyword.status := ARCHIVED \<rparr>)"
proof -
  have found: "prisma_keyword_findFirst s (id_kw k) (Keyword.campaignId k) = Some k"
    using assms(1,2) by (rule findFirst_of_row)
  from deleteKeyword_found [OF assms(1) found] assms(3)
  have "s' = s\<lparr> keywordTable :=
                  map (\<lambda>r. if id_kw r = id_kw k then r\<lparr> Keyword.status := ARCHIVED \<rparr> else r)
                    (keywordTable s) \<rparr>"
    by simp
  then show ?thesis
    using found by (simp add: findFirst_after_patch)
qed

lemma deleteKeyword_not_found:
  assumes "prisma_keyword_findFirst s i cid = None"
  shows "deleteKeyword s i cid = (Inl (NotFoundError ''Keyword not found''), s)"
  using assms by (simp add: deleteKeyword_def getKeywordById_def)

lemma unique_ids_deleteKeyword:
  assumes "unique_ids s"
  shows "unique_ids (snd (deleteKeyword s i cid))"
proof (cases "prisma_keyword_findFirst s i cid")
  case None
  with assms show ?thesis by (simp add: deleteKeyword_not_found)
next
  case (Some k)
  with assms show ?thesis
    by (simp add: deleteKeyword_found unique_ids_patch)
qed

text \<open>
  Claim C5. In a store with unique keyword ids, \<open>deleteKeyword\<close> on the id and campaign of
  a stored keyword succeeds; afterwards the row of that keyword is the old row with status
  ARCHIVED and every other column as before, and all other rows and tables are as before.
  A second \<open>deleteKeyword\<close> on the same pair succeeds again and returns the same store.
  On a pair that no row has, it fails with NotFoundError and leaves the store unchanged.
\<close>

theorem deleteKeyword_archives:
  assumes "unique_ids s"
  shows "(\<forall>k \<in> set (keywordTable s).
            (\<exists>s'. deleteKeyword s (id_kw k) (Keyword.campaignId k) = (Inr (), s')
               \<and> prisma_keyword_findFirst s' (id_kw k) (Keyword.campaignId k)
                     = Some (k\<lparr> Keyword.status := ARCHIVED \<rparr>)
               \<and> keywordTable s' =
                     map (\<lambda>r. if r = k then k\<lparr> Keyword.status := ARCHIVED \<rparr> else r) (keywordTable s)
               \<and> campaignTable s' = campaignTable s \<and> adGroupTable s' = adGroupTable s
               \<and> keywordSeq s' = keywordSeq s
               \<and> deleteKeyword s' (id_kw k) (Keyword.campaignId k) = (Inr (), s')))
       \<and> (\<not> (\<exists>k \<in> set (keywordTable s). id_kw k = i \<and> Keyword.campaignId k = cid) \<longrightarrow>
            deleteKeyword s i cid = (Inl (NotFoundError ''Keyword not found''), s))"
proof (intro conjI ballI impI)
  fix k
  assume k: "k \<in> set (keywordTable s)"
  let ?archive = "\<lambda>r. if id_kw r = id_kw k then r\<lparr> Keyword.status := ARCHIVED \<rparr> else r"
  let ?s' = "s\<lparr> keywordTable := map ?archive (keywordTable s) \<rparr>"
  have found: "prisma_keyword_findFirst s (id_kw k) (Keyword.campaignId k) = Some k"
    using assms k by (rule findFirst_of_row)
  with assms have run: "deleteKeyword s (id_kw k) (Keyword.campaignId k) = (Inr (), ?s')"
    by (rule deleteKeyword_found)
  have found': "prisma_keyword_findFirst ?s' (id_kw k) (Keyword.campaignId k)
                  = Some (k\<lparr> Keyword.status := ARCHIVED \<rparr>)"
    using found by (simp add: findFirst_after_patch)
  have same: "?archive r = (if r = k then k\<lparr> Keyword.status := ARCHIVED \<rparr> else r)"
    if "r \<in> set (keywordTable s)" for r
    using assms k that unfolding unique_ids_def by (auto dest: unique_row)
  then have table: "map ?archive (keywordTable s) =
      map (\<lambda>r. if r = k then k\<lparr> Keyword.status := ARCHIVED \<rparr> else r) (keywordTable s)"
    by simp
  have uniq': "unique_ids ?s'"
    using assms by (simp add: unique_ids_patch)
  have "map ?archive (map ?archive (keywordTable s)) = map ?archive (keywordTable s)"
    by simp
  then have again: "deleteKeyword ?s' (id_kw k) (Keyword.campaignId k) = (Inr (), ?s')"
    using deleteKeyword_found [OF uniq' found'] by (simp del: map_map)
  show "\<exists>s'. deleteKeyword s (id_kw k) (Keyword.campaignId k) = (Inr (), s')
               \<and> prisma_keyword_findFirst s' (id_kw k) (Keyword.campaignId k)
                     = Some (k\<lparr> Keyword.status := ARCHIVED \<rparr>)
               \<and> keywordTable s' =
                     map (\<lambda>r. if r = k then k\<lparr> Keyword.status := ARCHIVED \<rparr> else r) (keywordTable s)
               \<and> campaignTable s' = campaignTable s \<and> adGroupTable s' = adGroupTable s
               \<and> keywordSeq s' = keywordSeq s
               \<and> deleteKeyword s' (id_kw k) (Keyword.campaignId k) = (Inr (), s')"
  proof (intro exI [of _ ?s'] conjI)
    show "deleteKeyword s (id_kw k) (Keyword.campaignId k) = (Inr (), ?s')"
      by (rule run)
    show "prisma_keyword_findFirst ?s' (id_kw k) (Keyword.campaignId k)
            = Some (k\<lparr> Keyword.status := ARCHIVED \<rparr>)"
      by (rule found')
    show "keywordTable ?s' =
            map (\<lambda>r. if r = k then k\<lparr> Keyword.status := ARCHIVED \<rparr> else r) (keywordTable s)"
      using table by simp
    show "deleteKeyword ?s' (id_kw k) (Keyword.campaignId k) = (Inr (), ?s')"
      by (rule again)
  qed simp_all
next
  assume "\<not> (\<exists>k \<in> set (keywordTable s). id_kw k = i \<and> Keyword.campaignId k = cid)"
  then have "prisma_keyword_findFirst s i cid = None"
    by (simp add: findFirst_None_iff)
  then show "deleteKeyword s i cid = (Inl (NotFoundError ''Keyword not found''), s)"
    by (rule deleteKeyword_not_found)
qed

theorem deleteKeyword_archives_witness:
  "(\<exists>s'. deleteKeyword demo_store 1 1 = (Inr (), s')
       \<and> prisma_keyword_findFirst s' 1 1 = Some (kw_shoes\<lparr> Keyword.status := ARCHIVED \<rparr>)
       \<and> keywordTable s' = [kw_shoes\<lparr> Keyword.status := ARCHIVED \<rparr>, kw_free, kw_boots]
       \<and> deleteKeyword s' 1 1 = (Inr (), s'))
   \<and> deleteKeyword demo_store 7 1 = (Inl (NotFoundError ''Keyword not found''), demo_store)"
proof -
  note rule = deleteKeyword_archives [OF demo_store_unique_ids, of 7 1]
  have shoes: "kw_shoes \<in> set (keywordTable demo_store)" "id_kw kw_shoes = 1"
    "Keyword.campaignId kw_shoes = 1" "kw_free \<noteq> kw_shoes" "kw_boots \<noteq> kw_shoes"
    "keywordTable demo_store = [kw_shoes, kw_free, kw_boots]"
    by (simp_all add: demo_store_def kw_shoes_def kw_free_def kw_boots_def)
  have none: "\<not> (\<exists>k \<in> set (keywordTable demo_store). id_kw k = 7 \<and> Keyword.campaignId k = 1)"
    by (simp add: demo_store_def kw_shoes_def kw_free_def kw_boots_def)
  from rule shoes(1) have
    "\<exists>s'. deleteKeyword demo_store (id_kw kw_shoes) (Keyword.campaignId kw_shoes) = (Inr (), s')
               \<and> prisma_keyword_findFirst s' (id_kw kw_shoes) (Keyword.campaignId kw_shoes)
                     = Some (kw_shoes\<lparr> Keyword.status := ARCHIVED \<rparr>)
               \<and> keywordTable s' =
                     map (\<lambda>r. if r = kw_shoes then kw_shoes\<lparr> Keyword.status := ARCHIVED \<rparr> else r)
                       (keywordTable demo_store)
               \<and> campaignTable s' = campaignTable demo_store
               \<and> adGroupTable s' = adGroupTable demo_store
               \<and> keywordSeq s' = keywordSeq demo_store
               \<and> deleteKeyword s' (id_kw kw_shoes) (Keyword.campaignId kw_shoes) = (Inr (), s')"
    by blast
  then have a: "\<exists>s'. deleteKeyword demo_store 1 1 = (Inr (), s')
       \<and> prisma_keyword_findFirst s' 1 1 = Some (kw_shoes\<lparr> Keyword.status := ARCHIVED \<rparr>)
       \<and> keywordTable s' = [kw_shoes\<lparr> Keyword.status := ARCHIVED \<rparr>, kw_free, kw_boots]
       \<and> deleteKeyword s' 1 1 = (Inr (), s')"
    unfolding shoes(2,3,6) using shoes(4,5) by auto
  from rule none have b:
    "deleteKeyword demo_store 7 1 = (Inl (NotFoundError ''Keyword not found''), demo_store)"
    by blast
  from a b show ?thesis by blast
qed

subsection \<open>The campaign scopes every lookup\<close>

text \<open>
  Claim C7. In a store with unique keyword ids, when a keyword is stored under another
  campaign than the one given, \<open>getKeywordById\<close>, \<open>updateKeyword\<close> and \<open>deleteKeyword\<close>
  on its id each fail with NotFoundError and return the store unchanged.
\<close>

theorem campaignId_scopes_lookup:
  assumes "unique_ids s" and "k \<in> set (keywordTable s)" and "Keyword.campaignId k \<noteq> cid"
  shows "getKeywordById s (id_kw k) cid = (Inl (NotFoundError ''Keyword not found''), s)
       \<and> updateKeyword s (id_kw k) cid data = (Inl (NotFoundError ''Keyword not found''), s)
       \<and> deleteKeyword s (id_kw k) cid = (Inl (NotFoundError ''Keyword not found''), s)"
proof -
  have "prisma_keyword_findFirst s (id_kw k) cid = None"
    using assms by (rule findFirst_other_campaign)
  then show ?thesis
    by (simp add: getKeywordById_def updateKeyword_not_found deleteKeyword_not_found)
qed

theorem campaignId_scopes_lookup_witness:
  "getKeywordById demo_store 3 1 = (Inl (NotFoundError ''Keyword not found''), demo_store)
   \<and> updateKeyword demo_store 3 1 (patch_bid 5)
         = (Inl (NotFoundError ''Keyword not found''), demo_store)
   \<and> deleteKeyword demo_store 3 1 = (Inl (NotFoundError ''Keyword not found''), demo_store)"
proof -
  have boots: "kw_boots \<in> set (keywordTable demo_store)" "Keyword.campaignId kw_boots \<noteq> 1"
    "id_kw kw_boots = 3"
    by (simp_all add: demo_store_def kw_boots_def)
  from campaignId_scopes_lookup [OF demo_store_unique_ids boots(1,2), of "patch_bid 5"]
  show ?thesis unfolding boots(3) .
qed

subsection \<open>Partial update\<close>

lemma update_data_only_bid:
  assumes "UpdateKeywordDto.keywordText data = None" and "UpdateKeywordDto.matchType data = None"
    and "UpdateKeywordDto.status data = None" and "UpdateKeywordDto.isNegative data = None"
  shows "update_data data k =
           k\<lparr> Keyword.bid := (case UpdateKeywordDto.bid data of
                                Some b \<Rightarrow> b | None \<Rightarrow> Keyword.bid k) \<rparr>"
  using assms by (simp add: update_data_def Let_def split: option.splits)

lemma patched_rows_kept:
  assumes "r \<in> set ks" and "id_kw r \<noteq> i"
  shows "r \<in> set (map (\<lambda>r. if id_kw r = i then f r else r) ks)"
  using assms by (induction ks) auto

text \<open>
  Claim C6. In a store with unique keyword ids, take a stored keyword and call
  \<open>updateKeyword\<close> on its id and campaign. Whatever the outcome, the row stored for it
  afterwards keeps the previous value of every member absent from the patch, and its id,
  campaign, ad group and counters; every other row is still in the table. When the patch
  contains nothing but a bid, the stored row is the old row with at most the bid replaced.
\<close>

theorem updateKeyword_partial_update:
  assumes "unique_ids s" and "k \<in> set (keywordTable s)"
    and "s' = snd (updateKeyword s (id_kw k) (Keyword.campaignId k) data)"
  shows "\<exists>k'. prisma_keyword_findFirst s' (id_kw k) (Keyword.campaignId k) = Some k'
            \<and> (\<forall>v. fst (updateKeyword s (id_kw k) (Keyword.campaignId k) data) = Inr v \<longrightarrow> v = k')
            \<and> (UpdateKeywordDto.keywordText data = None \<longrightarrow>
                   Keyword.keywordText k' = Keyword.keywordText k)
            \<and> (UpdateKeywordDto.matchType data = None \<longrightarrow>
                   Keyword.matchType k' = Keyword.matchType k)
            \<and> (UpdateKeywordDto.bid data = None \<longrightarrow> Keyword.bid k' = Keyword.bid k)
            \<and> (UpdateKeywordDto.status data = None \<longrightarrow> Keyword.status k' = Keyword.status k)
            \<and> (UpdateKeywordDto.isNegative data = None \<longrightarrow>
                   Keyword.isNegative k' = Keyword.isNegative k)
            \<and> id_kw k' = id_kw k \<and> Keyword.campaignId k' = Keyword.campaignId k
            \<and> Keyword.adGroupId k' = Keyword.adGroupId k
            \<and> impressions k' = impressions k \<and> clicks k' = clicks k
            \<and> conversions k' = conversions k \<and> spend k' = spend k \<and> sales k' = sales k
            \<and> (UpdateKeywordDto.keywordText data = None \<and> UpdateKeywordDto.matchType data = None
                 \<and> UpdateKeywordDto.status data = None \<and> UpdateKeywordDto.isNegative data = None
                 \<longrightarrow> k' = k\<lparr> Keyword.bid := Keyword.bid k' \<rparr>)
            \<and> (\<forall>r \<in> set (keywordTable s). r \<noteq> k \<longrightarrow> r \<in> set (keywordTable s'))"
proof -
  let ?i = "id_kw k" and ?cid = "Keyword.campaignId k"
  have found: "prisma_keyword_findFirst s ?i ?cid = Some k"
    using assms(1,2) by (rule findFirst_of_row)
  from updateKeyword_cases [OF assms(1), of ?i ?cid data]
  show ?thesis
  proof (elim disjE exE conjE)
    fix e
    assume "updateKeyword s ?i ?cid data = (Inl e, s)"
    then show ?thesis
      using found assms(3) by (intro exI [of _ k]) simp
  next
    fix k0
    assume k0: "prisma_keyword_findFirst s ?i ?cid = Some k0"
      and run: "updateKeyword s ?i ?cid data =
                  (Inr (update_data data k0),
                   s\<lparr> keywordTable :=
                        map (\<lambda>r. if id_kw r = ?i then update_data data r else r)
                          (keywordTable s) \<rparr>)"
    from k0 found have [simp]: "k0 = k" by simp
    let ?k' = "update_data data k"
    have s': "s' = s\<lparr> keywordTable :=
                        map (\<lambda>r. if id_kw r = ?i then update_data data r else r)
                          (keywordTable s) \<rparr>"
      using run assms(3) by simp
    have stored: "prisma_keyword_findFirst s' ?i ?cid = Some ?k'"
      unfolding s' using found by (simp add: findFirst_after_patch update_data_fixed)
    have others: "r \<in> set (keywordTable s')" if "r \<in> set (keywordTable s)" "r \<noteq> k" for r
    proof -
      from that assms(1,2) have "id_kw r \<noteq> ?i"
        unfolding unique_ids_def by (metis unique_row)
      with that(1) show ?thesis
        unfolding s' by (simp add: patched_rows_kept del: set_map)
    qed
    have only_bid: "?k' = k\<lparr> Keyword.bid := Keyword.bid ?k' \<rparr>"
      if "UpdateKeywordDto.keywordText data = None \<and> UpdateKeywordDto.matchType data = None
                 \<and> UpdateKeywordDto.status data = None \<and> UpdateKeywordDto.isNegative data = None"
      using that by (simp add: update_data_only_bid)
    show ?thesis
    proof (intro exI [of _ ?k'] conjI ballI impI allI)
      show "prisma_keyword_findFirst s' ?i ?cid = Some ?k'"
        by (rule stored)
      show "?k' = k\<lparr> Keyword.bid := Keyword.bid ?k' \<rparr>"
        if "UpdateKeywordDto.keywordText data = None \<and> UpdateKeywordDto.matchType data = None
                 \<and> UpdateKeywordDto.status data = None \<and> UpdateKeywordDto.isNegative data = None"
        using that by (rule only_bid)
      show "r \<in> set (keywordTable s')" if "r \<in> set (keywordTable s)" "r \<noteq> k" for r
        using that by (rule others)
      show "v = ?k'" if "fst (updateKeyword s ?i ?cid data) = Inr v" for v
        using that run by simp
    qed (simp_all add: update_data_fixed update_data_keywordText update_data_matchType
           update_data_bid update_data_status update_data_isNegative)
  qed
qed

theorem updateKeyword_partial_update_witness:
  "\<exists>k'. prisma_keyword_findFirst (snd (updateKeyword demo_store 1 1 (patch_bid 5))) 1 1 = Some k'
        \<and> fst (updateKeyword demo_store 1 1 (patch_bid 5)) = Inr k'
        \<and> k' = kw_shoes\<lparr> Keyword.bid := 5 \<rparr>
        \<and> Keyword.keywordText k' = str ''running shoes''
        \<and> Keyword.matchType k' = EXACT \<and> Keyword.status k' = ACTIVE
        \<and> kw_free \<in> set (keywordTable (snd (updateKeyword demo_store 1 1 (patch_bid 5))))"
proof -
  let ?run = "updateKeyword demo_store 1 1 (patch_bid 5)"
  have shoes: "kw_shoes \<in> set (keywordTable demo_store)" "id_kw kw_shoes = 1"
    "Keyword.campaignId kw_shoes = 1" "kw_free \<in> set (keywordTable demo_store)"
    "kw_free \<noteq> kw_shoes"
    by (simp_all add: demo_store_def kw_shoes_def kw_free_def)
  have patch: "UpdateKeywordDto.keywordText (patch_bid 5) = None"
    "UpdateKeywordDto.matchType (patch_bid 5) = None"
    "UpdateKeywordDto.status (patch_bid 5) = None"
    "UpdateKeywordDto.isNegative (patch_bid 5) = None"
    "UpdateKeywordDto.bid (patch_bid 5) = Some 5"
    by (simp_all add: patch_bid_def)
  have run: "fst ?run = Inr (update_data (patch_bid 5) kw_shoes)"
    using updateKeyword_applied [OF demo_store_unique_ids demo_store_findFirst(1), of "patch_bid 5"]
    by (simp add: patch)
  from updateKeyword_partial_update
         [OF demo_store_unique_ids shoes(1) refl, of "patch_bid 5", unfolded shoes(2,3)]
  obtain k' where k':
    "prisma_keyword_findFirst (snd ?run) 1 1 = Some k'"
    "\<forall>v. fst ?run = Inr v \<longrightarrow> v = k'"
    "Keyword.keywordText k' = Keyword.keywordText kw_shoes"
    "Keyword.matchType k' = Keyword.matchType kw_shoes"
    "Keyword.status k' = Keyword.status kw_shoes"
    "k' = kw_shoes\<lparr> Keyword.bid := Keyword.bid k' \<rparr>"
    "\<forall>r \<in> set (keywordTable demo_store). r \<noteq> kw_shoes \<longrightarrow> r \<in> set (keywordTable (snd ?run))"
    using patch by blast
  from k'(2) run have eq: "k' = update_data (patch_bid 5) kw_shoes"
    by simp
  then have "Keyword.bid k' = 5"
    by (simp add: update_data_bid patch)
  with k'(6) have "k' = kw_shoes\<lparr> Keyword.bid := 5 \<rparr>"
    by simp
  moreover from k'(7) shoes(4,5) have "kw_free \<in> set (keywordTable (snd ?run))"
    by blast
  moreover from eq run have "fst ?run = Inr k'"
    by simp
  moreover from k'(3,4,5) have "Keyword.keywordText k' = str ''running shoes''"
    "Keyword.matchType k' = EXACT" "Keyword.status k' = ACTIVE"
    by (simp_all add: kw_shoes_def)
  ultimately show ?thesis
    using k'(1) by blast
qed

subsection \<open>Bulk creation\<close>

text \<open>
  A call only reads the campaign and ad-group tables and only appends to the keyword table.
  Run without interruption, the three steps of a call are \<open>createKeyword\<close>.
\<close>

lemma resume_tables:
  "resume c s = (c', s') \<Longrightarrow>
     campaignTable s' = campaignTable s \<and> adGroupTable s' = adGroupTable s"
  by (cases c) (auto simp: prisma_keyword_create_def Let_def split: option.splits if_splits)

lemma resume_cases:
  assumes "resume c s = (c', s')"
  shows "(s' = s \<and> (c' = c \<or> ((\<forall>r. c \<noteq> Settled r) \<and> (\<forall>k. c' \<noteq> Settled (Inr k)))))
       \<or> (\<exists>d k. c = AwaitCreate d \<and> c' = Settled (Inr k) \<and> id_kw k = keywordSeq s + 1
              \<and> s' = s\<lparr> keywordTable := keywordTable s @ [k], keywordSeq := keywordSeq s + 1 \<rparr>)"
  using assms
  by (cases c) (auto simp: prisma_keyword_create_def Let_def split: option.splits if_splits)

lemma createKeyword_as_call:
  "(case resume (start_call d) s of
      (c1, s1) \<Rightarrow> (case resume c1 s1 of (c2, s2) \<Rightarrow> resume c2 s2))
   = (Settled (fst (createKeyword s d)), snd (createKeyword s d))"
  by (simp add: start_call_def createKeyword_def split: option.splits prod.splits)

lemma agrees_start: "agrees s d (start_call d)"
  by (simp add: start_call_def createKeyword_def)

lemma agrees_resume:
  assumes "agrees s d c"
    and "campaignTable s1 = campaignTable s" and "adGroupTable s1 = adGroupTable s"
  shows "agrees s d (fst (resume c s1))"
proof (cases c)
  case (AwaitCampaign data)
  with assms show ?thesis
    by (auto simp: start_call_def createKeyword_def prisma_keyword_create_def Let_def
             split: option.splits if_splits)
next
  case (AwaitAdGroup data)
  with assms show ?thesis
    by (auto simp: start_call_def createKeyword_def prisma_keyword_create_def Let_def
             split: option.splits if_splits)
next
  case (AwaitCreate data)
  with assms show ?thesis
    by (auto simp: start_call_def createKeyword_def prisma_keyword_create_def Let_def
             split: option.splits if_splits)
next
  case (Settled r)
  with assms show ?thesis by simp
qed

lemma awaits_left_start: "awaits_left (start_call d) \<le> 3"
  by (simp add: start_call_def)

lemma awaits_left_resume: "awaits_left (fst (resume c s)) \<le> awaits_left c - 1"
  by (cases c) (auto split: option.splits prod.splits)

lemma awaits_left_0: "awaits_left c = 0 \<longleftrightarrow> (\<exists>r. c = Settled r)"
  by (cases c) simp_all

text \<open>What holds of a run after every schedule, by induction on the schedule.\<close>

lemma bulk_run_Nil: "bulk_run [] s ds = started s ds"
  by (simp add: bulk_run_def)

lemma bulk_run_snoc: "bulk_run (sched @ [i]) s ds = answer (bulk_run sched s ds) i"
  by (simp add: bulk_run_def)

lemma bulk_run_append: "bulk_run (sched @ later) s ds = foldl answer (bulk_run sched s ds) later"
  by (simp add: bulk_run_def)

lemma answer_outside: "\<not> i < length (calls r) \<Longrightarrow> answer r i = r"
  by (simp add: answer_def)

lemma answer_inside:
  assumes "i < length (calls r)"
  shows "calls (answer r i) = (calls r)[i := fst (resume (calls r ! i) (store r))]"
    and "store (answer r i) = snd (resume (calls r ! i) (store r))"
    and "rejection (answer r i) =
           (case rejection r of
              Some e \<Rightarrow> Some e
            | None \<Rightarrow> first_rejected [fst (resume (calls r ! i) (store r))])"
  using assms by (simp_all add: answer_def case_prod_beta)

lemma answer_length: "length (calls (answer r i)) = length (calls r)"
  by (cases "i < length (calls r)") (simp_all add: answer_inside answer_outside)

lemma answer_tables:
  "campaignTable (store (answer r i)) = campaignTable (store r)
   \<and> adGroupTable (store (answer r i)) = adGroupTable (store r)"
proof (cases "i < length (calls r)")
  case True
  then show ?thesis
    using resume_tables [of "calls r ! i" "store r"
            "fst (resume (calls r ! i) (store r))" "snd (resume (calls r ! i) (store r))"]
    by (simp add: answer_inside)
next
  case False
  then show ?thesis by (simp add: answer_outside)
qed

lemma bulk_run_length: "length (calls (bulk_run sched s ds)) = length ds"
  by (induction sched rule: rev_induct)
     (simp_all add: bulk_run_Nil bulk_run_snoc started_def answer_length)

lemma bulk_run_tables:
  "campaignTable (store (bulk_run sched s ds)) = campaignTable s
   \<and> adGroupTable (store (bulk_run sched s ds)) = adGroupTable s"
  by (induction sched rule: rev_induct)
     (simp_all add: bulk_run_Nil bulk_run_snoc started_def answer_tables)

lemma answer_other:
  "j \<noteq> i \<Longrightarrow> calls (answer r i) ! j = calls r ! j"
  by (cases "i < length (calls r)") (simp_all add: answer_inside answer_outside)

lemma answer_same:
  "i < length (calls r) \<Longrightarrow> calls (answer r i) ! i = fst (resume (calls r ! i) (store r))"
  by (simp add: answer_inside)

lemma bulk_run_agrees:
  "i < length ds \<Longrightarrow> agrees s (ds ! i) (calls (bulk_run sched s ds) ! i)"
proof (induction sched rule: rev_induct)
  case Nil
  then show ?case
    by (simp add: bulk_run_Nil started_def agrees_start)
next
  case (snoc j sched)
  let ?r = "bulk_run sched s ds"
  from snoc have IH: "agrees s (ds ! i) (calls ?r ! i)" by simp
  show ?case
  proof (cases "j = i")
    case True
    from snoc.prems have "i < length (calls ?r)"
      by (simp add: bulk_run_length)
    then have "calls (answer ?r i) ! i = fst (resume (calls ?r ! i) (store ?r))"
      by (rule answer_same)
    moreover have "agrees s (ds ! i) (fst (resume (calls ?r ! i) (store ?r)))"
      using IH bulk_run_tables [of sched s ds] by (intro agrees_resume) simp_all
    ultimately show ?thesis
      using True by (simp add: bulk_run_snoc)
  next
    case False
    then have "calls (answer ?r j) ! i = calls ?r ! i"
      by (intro answer_other) simp
    with IH show ?thesis
      by (simp add: bulk_run_snoc)
  qed
qed

lemma first_rejected_None:
  "first_rejected cs = None \<longleftrightarrow> (\<forall>e. Settled (Inl e) \<notin> set cs)"
  by (induction cs rule: first_rejected.induct) auto

lemma first_rejected_Some:
  "first_rejected cs = Some e \<Longrightarrow> Settled (Inl e) \<in> set cs"
  by (induction cs rule: first_rejected.induct) auto

lemma start_call_not_fulfilled: "start_call d \<noteq> Settled (Inr k)"
  by (simp add: start_call_def)

lemma answer_keeps_settled:
  assumes "calls r ! j = Settled x"
  shows "calls (answer r i) ! j = Settled x"
proof (cases "j = i \<and> i < length (calls r)")
  case True
  with assms show ?thesis
    by (simp add: answer_inside)
next
  case False
  with assms show ?thesis
    by (cases "i < length (calls r)") (auto simp: answer_inside answer_outside)
qed

lemma answer_rejection_kept:
  "rejection r = Some e \<Longrightarrow> rejection (answer r i) = Some e"
  by (cases "i < length (calls r)") (simp_all add: answer_inside answer_outside)

lemma bulk_run_rejection:
  "case rejection (bulk_run sched s ds) of
     Some e \<Rightarrow> \<exists>i < length ds. calls (bulk_run sched s ds) ! i = Settled (Inl e)
   | None \<Rightarrow> \<forall>i < length ds. \<forall>e. calls (bulk_run sched s ds) ! i \<noteq> Settled (Inl e)"
proof (induction sched rule: rev_induct)
  case Nil
  show ?case
  proof (cases "first_rejected (map start_call ds)")
    case None
    then have "\<forall>e. Settled (Inl e) \<notin> set (map start_call ds)"
      using first_rejected_None [of "map start_call ds"] by blast
    then have "\<forall>i < length ds. \<forall>e. map start_call ds ! i \<noteq> Settled (Inl e)"
      by (metis length_map nth_mem)
    with None show ?thesis
      by (simp add: bulk_run_Nil started_def)
  next
    case (Some e)
    then have "Settled (Inl e) \<in> set (map start_call ds)"
      by (rule first_rejected_Some)
    then obtain i where "i < length ds" "map start_call ds ! i = Settled (Inl e)"
      by (metis in_set_conv_nth length_map)
    with Some show ?thesis
      by (auto simp: bulk_run_Nil started_def)
  qed
next
  case (snoc j sched)
  let ?r = "bulk_run sched s ds"
  have len: "length (calls ?r) = length ds"
    by (rule bulk_run_length)
  show ?case
  proof (cases "rejection ?r")
    case (Some e)
    with snoc obtain i where i: "i < length ds" "calls ?r ! i = Settled (Inl e)"
      by auto
    from i(2) have "calls (answer ?r j) ! i = Settled (Inl e)"
      by (rule answer_keeps_settled)
    moreover from Some have "rejection (answer ?r j) = Some e"
      by (rule answer_rejection_kept)
    ultimately show ?thesis
      using i(1) by (auto simp: bulk_run_snoc)
  next
    case None
    with snoc have old: "\<forall>i < length ds. \<forall>e. calls ?r ! i \<noteq> Settled (Inl e)"
      by simp
    show ?thesis
    proof (cases "j < length ds")
      case False
      with len have "answer ?r j = ?r"
        by (simp add: answer_outside)
      with None old show ?thesis
        by (simp add: bulk_run_snoc)
    next
      case True
      let ?c = "fst (resume (calls ?r ! j) (store ?r))"
      from True len have j: "j < length (calls ?r)" by simp
      have rej: "rejection (answer ?r j) = first_rejected [?c]"
        using None by (simp add: answer_inside(3) [OF j])
      have same: "calls (answer ?r j) ! j = ?c"
        using j by (rule answer_same)
      show ?thesis
      proof (cases "first_rejected [?c]")
        case None
        then have c: "\<forall>e. ?c \<noteq> Settled (Inl e)"
          using first_rejected_None [of "[?c]"] by auto
        have "calls (answer ?r j) ! i \<noteq> Settled (Inl e)" if "i < length ds" for i e
        proof (cases "i = j")
          case True
          with same c show ?thesis by simp
        next
          case False
          then have "calls (answer ?r j) ! i = calls ?r ! i"
            by (intro answer_other) simp
          with old that show ?thesis by simp
        qed
        with None rej show ?thesis
          by (simp add: bulk_run_snoc)
      next
        case (Some e)
        then have "?c = Settled (Inl e)"
          using first_rejected_Some [of "[?c]" e] by simp
        with same True Some rej show ?thesis
          by (auto simp: bulk_run_snoc)
      qed
    qed
  qed
qed

lemma bulk_run_awaits_left:
  "i < length ds \<Longrightarrow> awaits_left (calls (bulk_run sched s ds) ! i) \<le> 3 - count_list sched i"
proof (induction sched rule: rev_induct)
  case Nil
  then show ?case
    by (simp add: bulk_run_Nil started_def awaits_left_start)
next
  case (snoc j sched)
  let ?r = "bulk_run sched s ds"
  from snoc have IH: "awaits_left (calls ?r ! i) \<le> 3 - count_list sched i" by simp
  show ?case
  proof (cases "j = i")
    case True
    from snoc.prems have "i < length (calls ?r)"
      by (simp add: bulk_run_length)
    then have "calls (answer ?r i) ! i = fst (resume (calls ?r ! i) (store ?r))"
      by (rule answer_same)
    then have "awaits_left (calls (answer ?r i) ! i) \<le> awaits_left (calls ?r ! i) - 1"
      using awaits_left_resume [of "calls ?r ! i" "store ?r"] by simp
    with IH True show ?thesis
      by (simp add: bulk_run_snoc)
  next
    case False
    then have "calls (answer ?r j) ! i = calls ?r ! i"
      by (intro answer_other) simp
    with IH False show ?thesis
      by (simp add: bulk_run_snoc)
  qed
qed

text \<open>
  An answer either leaves the keyword table and the fulfilled calls as they are, or it is
  the answer to the insertion of a call, which appends the new row under the next id.
\<close>

lemma answer_cases:
  "(store (answer r i) = store r
      \<and> (\<forall>j k. calls (answer r i) ! j = Settled (Inr k) \<longleftrightarrow> calls r ! j = Settled (Inr k)))
   \<or> (i < length (calls r)
      \<and> (\<exists>d k. calls r ! i = AwaitCreate d
             \<and> calls (answer r i) = (calls r)[i := Settled (Inr k)]
             \<and> id_kw k = keywordSeq (store r) + 1
             \<and> store (answer r i) =
                 (store r)\<lparr> keywordTable := keywordTable (store r) @ [k],
                            keywordSeq := keywordSeq (store r) + 1 \<rparr>))"
proof (cases "i < length (calls r)")
  case False
  then show ?thesis by (simp add: answer_outside)
next
  case True
  let ?c = "calls r ! i"
  let ?c' = "fst (resume ?c (store r))"
  let ?s' = "snd (resume ?c (store r))"
  note inside = answer_inside(1,2) [OF True]
  from resume_cases [of ?c "store r" ?c' ?s']
  consider (same) "?s' = store r" "?c' = ?c"
    | (moved) "?s' = store r" "\<forall>x. ?c \<noteq> Settled x" "\<forall>k. ?c' \<noteq> Settled (Inr k)"
    | (made) d k where "?c = AwaitCreate d" "?c' = Settled (Inr k)"
        "id_kw k = keywordSeq (store r) + 1"
        "?s' = (store r)\<lparr> keywordTable := keywordTable (store r) @ [k],
                           keywordSeq := keywordSeq (store r) + 1 \<rparr>"
    by auto
  then show ?thesis
  proof cases
    case same
    then have "calls (answer r i) = calls r" "store (answer r i) = store r"
      by (simp_all add: inside)
    then show ?thesis by simp
  next
    case moved
    have "calls (answer r i) ! j = Settled (Inr k) \<longleftrightarrow> calls r ! j = Settled (Inr k)" for j k
    proof (cases "j = i")
      case True
      with moved(2,3) \<open>i < length (calls r)\<close> show ?thesis
        by (simp add: inside)
    next
      case False
      then show ?thesis
        by (simp add: inside)
    qed
    with moved(1) show ?thesis
      by (simp add: inside)
  next
    case made
    have "\<exists>d k. calls r ! i = AwaitCreate d
             \<and> calls (answer r i) = (calls r)[i := Settled (Inr k)]
             \<and> id_kw k = keywordSeq (store r) + 1
             \<and> store (answer r i) =
                 (store r)\<lparr> keywordTable := keywordTable (store r) @ [k],
                            keywordSeq := keywordSeq (store r) + 1 \<rparr>"
      using made by (intro exI [of _ d] exI [of _ k]) (simp add: inside)
    with True show ?thesis
      by blast
  qed
qed

lemma answer_rows:
  assumes len: "length (calls r) = n"
    and tab: "keywordTable (store r) = base @ created"
    and dist: "distinct (map id_kw created)"
    and ids: "\<forall>k \<in> set created. q < id_kw k \<and> id_kw k \<le> keywordSeq (store r)"
    and idx: "\<forall>k. k \<in> set created \<longleftrightarrow> (\<exists>j < n. calls r ! j = Settled (Inr k))"
    and inj: "\<forall>a b k k'. a < n \<and> b < n \<and> calls r ! a = Settled (Inr k)
                \<and> calls r ! b = Settled (Inr k') \<and> id_kw k = id_kw k' \<longrightarrow> a = b"
    and seq: "q \<le> keywordSeq (store r)"
  shows "\<exists>new. keywordTable (store (answer r i)) = base @ created @ new
          \<and> distinct (map id_kw (created @ new))
          \<and> (\<forall>k \<in> set (created @ new).
                q < id_kw k \<and> id_kw k \<le> keywordSeq (store (answer r i)))
          \<and> (\<forall>k. k \<in> set (created @ new)
                \<longleftrightarrow> (\<exists>j < n. calls (answer r i) ! j = Settled (Inr k)))
          \<and> (\<forall>a b k k'. a < n \<and> b < n \<and> calls (answer r i) ! a = Settled (Inr k)
                \<and> calls (answer r i) ! b = Settled (Inr k') \<and> id_kw k = id_kw k' \<longrightarrow> a = b)
          \<and> q \<le> keywordSeq (store (answer r i))"
proof -
  from answer_cases [of r i]
  consider (quiet) "store (answer r i) = store r"
      "\<forall>j k. calls (answer r i) ! j = Settled (Inr k) \<longleftrightarrow> calls r ! j = Settled (Inr k)"
    | (made) d k where "i < length (calls r)" "calls r ! i = AwaitCreate d"
        "calls (answer r i) = (calls r)[i := Settled (Inr k)]"
        "id_kw k = keywordSeq (store r) + 1"
        "store (answer r i) =
           (store r)\<lparr> keywordTable := keywordTable (store r) @ [k],
                      keywordSeq := keywordSeq (store r) + 1 \<rparr>"
    by blast
  then show ?thesis
  proof cases
    case quiet
    have "keywordTable (store (answer r i)) = base @ created @ []"
      using tab quiet(1) by simp
    moreover have "distinct (map id_kw (created @ []))"
      using dist by simp
    moreover have "\<forall>k \<in> set (created @ []).
                q < id_kw k \<and> id_kw k \<le> keywordSeq (store (answer r i))"
      using ids quiet(1) by simp
    moreover have "\<forall>k. k \<in> set (created @ [])
                \<longleftrightarrow> (\<exists>j < n. calls (answer r i) ! j = Settled (Inr k))"
      using idx quiet(2) by simp
    moreover have "\<forall>a b k k'. a < n \<and> b < n \<and> calls (answer r i) ! a = Settled (Inr k)
                \<and> calls (answer r i) ! b = Settled (Inr k') \<and> id_kw k = id_kw k' \<longrightarrow> a = b"
      using inj quiet(2) by simp
    moreover have "q \<le> keywordSeq (store (answer r i))"
      using seq quiet(1) by simp
    ultimately show ?thesis by blast
  next
    case made
    from made(1) len have i: "i < n" by simp
    have at: "calls (answer r i) ! j = Settled (Inr k')
                \<longleftrightarrow> (j = i \<and> k' = k) \<or> calls r ! j = Settled (Inr k')" if "j < n" for j k'
    proof (cases "j = i")
      case True
      with made(1,2,3) show ?thesis by auto
    next
      case False
      with made(3) show ?thesis by simp
    qed
    have old_small: "id_kw k' < id_kw k" if "k' \<in> set created" for k'
      using ids that made(4) by auto
    have "keywordTable (store (answer r i)) = base @ created @ [k]"
      using tab made(5) by simp
    moreover have "distinct (map id_kw (created @ [k]))"
      using dist old_small by fastforce
    moreover have "\<forall>k' \<in> set (created @ [k]).
                q < id_kw k' \<and> id_kw k' \<le> keywordSeq (store (answer r i))"
      using ids seq made(4,5) by auto
    moreover have "\<forall>k'. k' \<in> set (created @ [k])
                \<longleftrightarrow> (\<exists>j < n. calls (answer r i) ! j = Settled (Inr k'))"
    proof
      fix k'
      have "(\<exists>j < n. calls (answer r i) ! j = Settled (Inr k'))
              \<longleftrightarrow> k' = k \<or> (\<exists>j < n. calls r ! j = Settled (Inr k'))"
        using at i by blast
      with idx show "k' \<in> set (created @ [k])
                \<longleftrightarrow> (\<exists>j < n. calls (answer r i) ! j = Settled (Inr k'))"
        by auto
    qed
    moreover have "\<forall>a b k1 k2. a < n \<and> b < n \<and> calls (answer r i) ! a = Settled (Inr k1)
                \<and> calls (answer r i) ! b = Settled (Inr k2) \<and> id_kw k1 = id_kw k2 \<longrightarrow> a = b"
    proof (intro allI impI)
      fix a b k1 k2
      assume h: "a < n \<and> b < n \<and> calls (answer r i) ! a = Settled (Inr k1)
                \<and> calls (answer r i) ! b = Settled (Inr k2) \<and> id_kw k1 = id_kw k2"
      then have a: "(a = i \<and> k1 = k) \<or> calls r ! a = Settled (Inr k1)"
        and b: "(b = i \<and> k2 = k) \<or> calls r ! b = Settled (Inr k2)"
        using at by blast+
      have fresh: "id_kw k' \<noteq> id_kw k" if "j < n" "calls r ! j = Settled (Inr k')" for j k'
      proof -
        from that idx have "k' \<in> set created" by blast
        then show ?thesis using old_small by fastforce
      qed
      from a b show "a = b"
      proof (elim disjE)
        assume "a = i \<and> k1 = k" "b = i \<and> k2 = k"
        then show ?thesis by simp
      next
        assume "a = i \<and> k1 = k" "calls r ! b = Settled (Inr k2)"
        with h fresh [of b k2] show ?thesis by simp
      next
        assume "calls r ! a = Settled (Inr k1)" "b = i \<and> k2 = k"
        with h fresh [of a k1] show ?thesis by simp
      next
        assume "calls r ! a = Settled (Inr k1)" "calls r ! b = Settled (Inr k2)"
        with h inj show ?thesis by blast
      qed
    qed
    moreover have "q \<le> keywordSeq (store (answer r i))"
      using seq made(5) by simp
    ultimately show ?thesis by blast
  qed
qed

lemma bulk_run_rows:
  "\<exists>created. keywordTable (store (bulk_run sched s ds)) = keywordTable s @ created
      \<and> distinct (map id_kw created)
      \<and> (\<forall>k \<in> set created.
            keywordSeq s < id_kw k \<and> id_kw k \<le> keywordSeq (store (bulk_run sched s ds)))
      \<and> (\<forall>k. k \<in> set created
            \<longleftrightarrow> (\<exists>j < length ds. calls (bulk_run sched s ds) ! j = Settled (Inr k)))
      \<and> (\<forall>a b k k'. a < length ds \<and> b < length ds
            \<and> calls (bulk_run sched s ds) ! a = Settled (Inr k)
            \<and> calls (bulk_run sched s ds) ! b = Settled (Inr k') \<and> id_kw k = id_kw k'
            \<longrightarrow> a = b)
      \<and> keywordSeq s \<le> keywordSeq (store (bulk_run sched s ds))"
proof (induction sched rule: rev_induct)
  case Nil
  have "calls (started s ds) ! j \<noteq> Settled (Inr k)" if "j < length ds" for j k
    using that by (simp add: started_def start_call_not_fulfilled)
  then have "\<forall>j < length ds. \<forall>k. calls (bulk_run [] s ds) ! j \<noteq> Settled (Inr k)"
    by (simp add: bulk_run_Nil)
  moreover have "store (bulk_run [] s ds) = s"
    by (simp add: bulk_run_Nil started_def)
  ultimately show ?case
    by (intro exI [of _ "[]"]) auto
next
  case (snoc i sched)
  let ?r = "bulk_run sched s ds"
  from snoc obtain created where
    tab: "keywordTable (store ?r) = keywordTable s @ created"
    and dist: "distinct (map id_kw created)"
    and ids: "\<forall>k \<in> set created. keywordSeq s < id_kw k \<and> id_kw k \<le> keywordSeq (store ?r)"
    and idx: "\<forall>k. k \<in> set created \<longleftrightarrow> (\<exists>j < length ds. calls ?r ! j = Settled (Inr k))"
    and inj: "\<forall>a b k k'. a < length ds \<and> b < length ds \<and> calls ?r ! a = Settled (Inr k)
                \<and> calls ?r ! b = Settled (Inr k') \<and> id_kw k = id_kw k' \<longrightarrow> a = b"
    and seq: "keywordSeq s \<le> keywordSeq (store ?r)"
    by blast
  have len: "length (calls ?r) = length ds"
    by (rule bulk_run_length)
  from answer_rows [OF len tab dist ids idx inj seq, of i]
  obtain new where new:
    "keywordTable (store (answer ?r i)) = keywordTable s @ created @ new
          \<and> distinct (map id_kw (created @ new))
          \<and> (\<forall>k \<in> set (created @ new).
                keywordSeq s < id_kw k \<and> id_kw k \<le> keywordSeq (store (answer ?r i)))
          \<and> (\<forall>k. k \<in> set (created @ new)
                \<longleftrightarrow> (\<exists>j < length ds. calls (answer ?r i) ! j = Settled (Inr k)))
          \<and> (\<forall>a b k k'. a < length ds \<and> b < length ds \<and> calls (answer ?r i) ! a = Settled (Inr k)
                \<and> calls (answer ?r i) ! b = Settled (Inr k') \<and> id_kw k = id_kw k' \<longrightarrow> a = b)
          \<and> keywordSeq s \<le> keywordSeq (store (answer ?r i))"
    by blast
  show ?case
    unfolding bulk_run_snoc
    by (rule exI [of _ "created @ new"]) (use new in blast)
qed

text \<open>The primary key of the keyword table holds at every moment of a run.\<close>

lemma unique_ids_bulk_run:
  assumes "unique_ids s"
  shows "unique_ids (store (bulk_run sched s ds))"
proof -
  let ?r = "bulk_run sched s ds"
  from bulk_run_rows [of sched s ds] obtain created where
    tab: "keywordTable (store ?r) = keywordTable s @ created"
    and dist: "distinct (map id_kw created)"
    and ids: "\<forall>k \<in> set created. keywordSeq s < id_kw k \<and> id_kw k \<le> keywordSeq (store ?r)"
    and seq: "keywordSeq s \<le> keywordSeq (store ?r)"
    by blast
  from assms have old: "distinct (map id_kw (keywordTable s))"
    "\<forall>k \<in> set (keywordTable s). id_kw k \<le> keywordSeq s"
    by (simp_all add: unique_ids_def list_all_iff)
  from old(2) ids have "id_kw ` set (keywordTable s) \<inter> id_kw ` set created = {}"
    by fastforce
  with old(1) dist have "distinct (map id_kw (keywordTable s @ created))"
    by simp
  moreover from old(2) ids seq
  have "\<forall>k \<in> set (keywordTable s @ created). id_kw k \<le> keywordSeq (store ?r)"
    by fastforce
  ultimately show ?thesis
    by (simp add: unique_ids_def list_all_iff tab)
qed

lemma answer_grows:
  "\<exists>new. keywordTable (store (answer r i)) = keywordTable (store r) @ new"
  using answer_cases [of r i] by auto

lemma foldl_answer_grows:
  "\<exists>new. keywordTable (store (foldl answer r later)) = keywordTable (store r) @ new"
proof (induction later arbitrary: r)
  case Nil
  show ?case by simp
next
  case (Cons i later)
  from Cons [of "answer r i"] answer_grows [of r i] show ?case
    by auto
qed

text \<open>The result of \<open>Promise.all\<close>: once it is there, no later answer changes it.\<close>

lemma fulfilled_values_Some:
  "fulfilled_values cs = Some ks \<longleftrightarrow> cs = map (\<lambda>k. Settled (Inr k)) ks"
  by (induction cs arbitrary: ks rule: fulfilled_values.induct) auto

lemma fulfilled_values_all:
  assumes "\<forall>c \<in> set cs. \<exists>k. c = Settled (Inr k)"
  shows "\<exists>ks. fulfilled_values cs = Some ks"
  using assms by (induction cs rule: fulfilled_values.induct) auto

lemma promise_all_rejected:
  "promise_all r = Some (Inl e) \<longleftrightarrow> rejection r = Some e"
  by (auto simp: promise_all_def split: option.splits)

lemma promise_all_fulfilled:
  "promise_all r = Some (Inr ks) \<longleftrightarrow>
     rejection r = None \<and> calls r = map (\<lambda>k. Settled (Inr k)) ks"
  by (auto simp: promise_all_def fulfilled_values_Some split: option.splits)

lemma answer_settled_run:
  assumes "calls r = map (\<lambda>k. Settled (Inr k)) ks" and "rejection r = None"
  shows "calls (answer r i) = calls r \<and> rejection (answer r i) = None"
proof (cases "i < length (calls r)")
  case True
  with assms(1) have "calls r ! i = Settled (Inr (ks ! i))"
    by simp
  with True assms(2) show ?thesis
    by (simp add: answer_inside) (metis list_update_id)
next
  case False
  with assms(2) show ?thesis by (simp add: answer_outside)
qed

lemma answer_promise_all:
  assumes "promise_all r = Some x"
  shows "promise_all (answer r i) = Some x"
proof (cases x)
  case (Inl e)
  with assms show ?thesis
    by (simp add: promise_all_rejected answer_rejection_kept)
next
  case (Inr ks)
  with assms answer_settled_run [of r ks i] show ?thesis
    by (simp add: promise_all_fulfilled)
qed

lemma foldl_answer_promise_all:
  "promise_all r = Some x \<Longrightarrow> promise_all (foldl answer r later) = Some x"
  by (induction later arbitrary: r) (simp_all add: answer_promise_all)

lemma createKeyword_error_kinds:
  assumes "fst (createKeyword s d) = Inl e"
  shows "(\<exists>m. e = ValidationError m) \<or> (\<exists>m. e = NotFoundError m)"
  using assms
  by (auto simp: createKeyword_def prisma_keyword_create_def Let_def
           split: if_splits option.splits)

lemma bulk_run_settled:
  assumes "i < length ds" and "3 \<le> count_list sched i"
  shows "\<exists>x. calls (bulk_run sched s ds) ! i = Settled x"
proof -
  from bulk_run_awaits_left [OF assms(1), of sched s] assms(2)
  have "awaits_left (calls (bulk_run sched s ds) ! i) = 0"
    by simp
  then show ?thesis
    by (simp only: awaits_left_0)
qed

lemma bulk_run_rejected_call:
  assumes "i < length ds" and "calls (bulk_run sched s ds) ! i = Settled (Inl e)"
  shows "fst (createKeyword s (ds ! i)) = Inl e"
  using bulk_run_agrees [OF assms(1), of s sched] assms(2) by simp

lemma bulk_run_fulfilled_call:
  assumes "i < length ds" and "calls (bulk_run sched s ds) ! i = Settled (Inr k)"
  shows "fst (createKeyword s (ds ! i)) = Inr (k\<lparr> id_kw := keywordSeq s + 1 \<rparr>)"
  using bulk_run_agrees [OF assms(1), of s sched] assms(2) by simp

lemma bulk_run_fulfilled_rows:
  assumes "calls (bulk_run sched s ds) = map (\<lambda>k. Settled (Inr k)) ks"
  shows "length ks = length ds"
    and "distinct (map id_kw ks)"
    and "set (keywordTable (store (bulk_run sched s ds))) = set (keywordTable s) \<union> set ks"
    and "length (keywordTable (store (bulk_run sched s ds))) = length (keywordTable s) + length ds"
proof -
  let ?r = "bulk_run sched s ds"
  show len: "length ks = length ds"
    using bulk_run_length [of sched s ds] assms by simp
  have at: "calls ?r ! j = Settled (Inr (ks ! j))" if "j < length ds" for j
    using that len assms by simp
  from bulk_run_rows [of sched s ds] obtain created where
    tab: "keywordTable (store ?r) = keywordTable s @ created"
    and dist: "distinct (map id_kw created)"
    and idx: "\<forall>k. k \<in> set created \<longleftrightarrow> (\<exists>j < length ds. calls ?r ! j = Settled (Inr k))"
    and inj: "\<forall>a b k k'. a < length ds \<and> b < length ds \<and> calls ?r ! a = Settled (Inr k)
                \<and> calls ?r ! b = Settled (Inr k') \<and> id_kw k = id_kw k' \<longrightarrow> a = b"
    by blast
  have "a = b" if "a < length ks" "b < length ks" "id_kw (ks ! a) = id_kw (ks ! b)" for a b
    using that inj at len by metis
  then show ids: "distinct (map id_kw ks)"
    by (simp add: distinct_conv_nth) blast
  have same: "set created = set ks"
  proof (rule set_eqI)
    fix k
    have "k \<in> set created \<longleftrightarrow> (\<exists>j < length ds. ks ! j = k)"
      using idx at by auto
    then show "k \<in> set created \<longleftrightarrow> k \<in> set ks"
      using len by (auto simp: in_set_conv_nth)
  qed
  with tab show "set (keywordTable (store ?r)) = set (keywordTable s) \<union> set ks"
    by simp
  from dist have "distinct created"
    by (rule distinct_map [THEN iffD1, THEN conjunct1])
  moreover from ids have "distinct ks"
    by (rule distinct_map [THEN iffD1, THEN conjunct1])
  ultimately have "length created = length ks"
    using same by (metis distinct_card)
  with tab len show "length (keywordTable (store ?r)) = length (keywordTable s) + length ds"
    by simp
qed

lemma bulkCreateKeywords_run:
  "bulkCreateKeywords sched s ds =
     (promise_all (bulk_run sched s ds), store (bulk_run sched s ds))"
  by (simp add: bulkCreateKeywords_def Let_def)

text \<open>
  With a single entry there is nothing to interleave, and three answers make
  \<open>bulkCreateKeywords\<close> the \<open>createKeyword\<close> call of that entry.
\<close>

lemma bulkCreateKeywords_single:
  "bulkCreateKeywords [0, 0, 0] s [d] =
     (Some (case fst (createKeyword s d) of Inl e \<Rightarrow> Inl e | Inr k \<Rightarrow> Inr [k]),
      snd (createKeyword s d))"
proof (cases "start_call d")
  case (Settled r)
  then have "\<exists>e. r = Inl e \<and> createKeyword s d = (Inl e, s)"
    by (auto simp: start_call_def createKeyword_def split: if_splits)
  with Settled show ?thesis
    by (auto simp: bulkCreateKeywords_def bulk_run_def started_def answer_def promise_all_def)
next
  case (AwaitCampaign data)
  then have d: "data = d" and ok: "\<not> (\<not> truthy_bool (CreateKeywordDto.isNegative d) \<and> CreateKeywordDto.bid d \<le> 0)"
      "trim (CreateKeywordDto.keywordText d) \<noteq> []"
    by (auto simp: start_call_def split: if_splits)
  show ?thesis
  proof (cases "campaignTable s (CreateKeywordDto.campaignId d)")
    case None
    with AwaitCampaign d ok show ?thesis
      by (simp add: bulkCreateKeywords_def bulk_run_def started_def answer_def promise_all_def
            createKeyword_def)
  next
    case (Some campaign)
    show ?thesis
    proof (cases "truthy_num (CreateKeywordDto.adGroupId d)")
      case False
      with Some AwaitCampaign d ok show ?thesis
        by (simp add: bulkCreateKeywords_def bulk_run_def started_def answer_def promise_all_def
              createKeyword_def prisma_keyword_create_def Let_def)
    next
      case True
      with Some AwaitCampaign d ok show ?thesis
        by (simp add: bulkCreateKeywords_def bulk_run_def started_def answer_def promise_all_def
              createKeyword_def prisma_keyword_create_def Let_def split: option.splits)
    qed
  qed
qed (simp_all add: start_call_def split: if_splits)

text \<open>
  Runs on the example store. When every query takes the same time, the entry without an ad
  group reaches its insertion one answer before the entry with one, and gets the lower id.
\<close>

lemma in_turns_2: "in_turns 2 = [0, 1, 0, 1, 0, 1]"
  by (simp add: in_turns_def numeral_3_eq_3 upt_rec)

lemma str_orphan: "trim (str ''orphan'') = str ''orphan''"
  by (simp add: trim_def str_def is_whitespace_def)

lemma str_lost: "trim (str ''lost'') = str ''lost''"
  by (simp add: trim_def str_def is_whitespace_def)

lemmas bulk_run_eval =
  bulk_run_def started_def answer_def start_call_def prisma_keyword_create_def Let_def
  dto_sandals_def dto_cheap_def dto_orphan_def dto_lost_def demo_store_def
  str_sandals str_cheap str_orphan str_lost str_Cons_nonempty

lemma run_sandals_cheap:
  "bulk_run (in_turns 2) demo_store [dto_sandals, dto_cheap] =
     \<lparr> calls = [Settled (Inr kw_sandals), Settled (Inr kw_cheap)],
       store = demo_store\<lparr> keywordTable := [kw_shoes, kw_free, kw_boots, kw_cheap, kw_sandals],
                           keywordSeq := 5 \<rparr>,
       rejection = None \<rparr>"
  by (simp add: in_turns_2 bulk_run_eval kw_sandals_def kw_cheap_def)

lemma run_bad_cheap:
  "bulk_run [1, 1] demo_store [dto_sandals\<lparr> CreateKeywordDto.bid := 0 \<rparr>, dto_cheap] =
     \<lparr> calls = [Settled (Inl (ValidationError ''Bid must be greater than 0'')),
                Settled (Inr kw_cheap)],
       store = demo_store\<lparr> keywordTable := [kw_shoes, kw_free, kw_boots, kw_cheap],
                           keywordSeq := 4 \<rparr>,
       rejection = Some (ValidationError ''Bid must be greater than 0'') \<rparr>"
  by (simp add: bulk_run_eval kw_cheap_def)

text \<open>
  Claim C9. \<open>bulkCreateKeywords\<close> starts one \<open>createKeyword\<close> call per entry and the calls
  run concurrently. Whatever the order in which the store answers them, and at every
  moment of the run: a call that has settled has the outcome of \<open>createKeyword\<close> on its
  entry alone, a created keyword up to its id; the keyword table is the old table followed
  by the rows of exactly the calls that have succeeded so far, with ids of their own; and
  these rows stay in the table ever after, whatever becomes of the other calls and of the
  result, which does not change once it is there: nothing is rolled back. If the result is
  a failure, it is the ValidationError or NotFoundError of an entry that fails on its own;
  if it is a success, it lists the created keyword of each entry, in the order of the
  entries, and these are the new rows. When some entry fails on its own, the result is
  never a success. Once the store has answered every call three times, every call has
  settled and the result is there: a failure when some entry fails on its own, a success
  otherwise, and every entry that succeeds on its own has its row in the table.
\<close>

theorem bulkCreateKeywords_no_rollback:
  assumes "bulkCreateKeywords sched s ds = (result, s')"
  shows "campaignTable s' = campaignTable s \<and> adGroupTable s' = adGroupTable s
    \<and> (\<forall>i < length ds. \<forall>e. calls (bulk_run sched s ds) ! i = Settled (Inl e) \<longrightarrow>
          fst (createKeyword s (ds ! i)) = Inl e)
    \<and> (\<forall>i < length ds. \<forall>k. calls (bulk_run sched s ds) ! i = Settled (Inr k) \<longrightarrow>
          fst (createKeyword s (ds ! i)) = Inr (k\<lparr> id_kw := keywordSeq s + 1 \<rparr>)
        \<and> (\<forall>later. k \<in> set (keywordTable (snd (bulkCreateKeywords (sched @ later) s ds)))))
    \<and> (\<exists>created. keywordTable s' = keywordTable s @ created
          \<and> distinct (map id_kw created)
          \<and> (\<forall>k \<in> set created. keywordSeq s < id_kw k)
          \<and> (\<forall>k. k \<in> set created \<longleftrightarrow>
                 (\<exists>i < length ds. calls (bulk_run sched s ds) ! i = Settled (Inr k))))
    \<and> (\<forall>later.
          (\<exists>new. keywordTable (snd (bulkCreateKeywords (sched @ later) s ds))
                    = keywordTable s' @ new)
        \<and> (result \<noteq> None \<longrightarrow> fst (bulkCreateKeywords (sched @ later) s ds) = result))
    \<and> (\<forall>e. result = Some (Inl e) \<longrightarrow>
          ((\<exists>m. e = ValidationError m) \<or> (\<exists>m. e = NotFoundError m))
        \<and> (\<exists>i < length ds. calls (bulk_run sched s ds) ! i = Settled (Inl e)
               \<and> fst (createKeyword s (ds ! i)) = Inl e))
    \<and> (\<forall>ks. result = Some (Inr ks) \<longrightarrow>
          length ks = length ds
        \<and> (\<forall>i < length ds.
              fst (createKeyword s (ds ! i)) = Inr ((ks ! i)\<lparr> id_kw := keywordSeq s + 1 \<rparr>))
        \<and> distinct (map id_kw ks)
        \<and> set (keywordTable s') = set (keywordTable s) \<union> set ks
        \<and> length (keywordTable s') = length (keywordTable s) + length ds)
    \<and> ((\<exists>i < length ds. isl (fst (createKeyword s (ds ! i)))) \<longrightarrow>
          (\<forall>ks. result \<noteq> Some (Inr ks)))
    \<and> ((\<forall>i < length ds. 3 \<le> count_list sched i) \<longrightarrow>
          result \<noteq> None
        \<and> ((\<exists>i < length ds. isl (fst (createKeyword s (ds ! i)))) \<longrightarrow>
              (\<exists>e. result = Some (Inl e)))
        \<and> ((\<forall>i < length ds. \<not> isl (fst (createKeyword s (ds ! i)))) \<longrightarrow>
              (\<exists>ks. result = Some (Inr ks)))
        \<and> (\<forall>i < length ds. \<forall>k0. fst (createKeyword s (ds ! i)) = Inr k0 \<longrightarrow>
              (\<exists>k \<in> set (keywordTable s'). keywordSeq s < id_kw k
                  \<and> k = k0\<lparr> id_kw := id_kw k \<rparr>)))"
proof -
  let ?r = "bulk_run sched s ds"
  from assms have result: "result = promise_all ?r" and s': "s' = store ?r"
    by (simp_all add: bulkCreateKeywords_run)
  have len: "length (calls ?r) = length ds"
    by (rule bulk_run_length)
  from bulk_run_rows [of sched s ds] obtain created where
    tab: "keywordTable s' = keywordTable s @ created"
    and dist: "distinct (map id_kw created)"
    and ids: "\<forall>k \<in> set created. keywordSeq s < id_kw k"
    and idx: "\<forall>k. k \<in> set created \<longleftrightarrow> (\<exists>i < length ds. calls ?r ! i = Settled (Inr k))"
    unfolding s' by blast
  have later_rows: "\<exists>new. keywordTable (snd (bulkCreateKeywords (sched @ later) s ds))
                            = keywordTable s' @ new" for later
    unfolding s' bulkCreateKeywords_run snd_conv bulk_run_append
    by (rule foldl_answer_grows)
  have later_result: "fst (bulkCreateKeywords (sched @ later) s ds) = result"
    if "result \<noteq> None" for later
  proof -
    from that obtain x where "promise_all ?r = Some x"
      unfolding result by blast
    then show ?thesis
      unfolding result bulkCreateKeywords_run fst_conv bulk_run_append
      by (simp add: foldl_answer_promise_all)
  qed
  have c1: "campaignTable s' = campaignTable s"
    and c2: "adGroupTable s' = adGroupTable s"
    unfolding s' using bulk_run_tables [of sched s ds] by simp_all
  have c3: "\<forall>i < length ds. \<forall>e. calls ?r ! i = Settled (Inl e) \<longrightarrow>
          fst (createKeyword s (ds ! i)) = Inl e"
    by (auto intro: bulk_run_rejected_call)
  have c4: "\<forall>i < length ds. \<forall>k. calls ?r ! i = Settled (Inr k) \<longrightarrow>
          fst (createKeyword s (ds ! i)) = Inr (k\<lparr> id_kw := keywordSeq s + 1 \<rparr>)
        \<and> (\<forall>later. k \<in> set (keywordTable (snd (bulkCreateKeywords (sched @ later) s ds))))"
  proof (intro allI impI conjI)
    fix i k later
    assume i: "i < length ds" and k: "calls ?r ! i = Settled (Inr k)"
    from i k show "fst (createKeyword s (ds ! i)) = Inr (k\<lparr> id_kw := keywordSeq s + 1 \<rparr>)"
      by (rule bulk_run_fulfilled_call)
    from i k idx have "k \<in> set created" by blast
    with tab have "k \<in> set (keywordTable s')" by simp
    with later_rows [of later]
    show "k \<in> set (keywordTable (snd (bulkCreateKeywords (sched @ later) s ds)))"
      by auto
  qed
  have c5: "\<exists>created. keywordTable s' = keywordTable s @ created
          \<and> distinct (map id_kw created)
          \<and> (\<forall>k \<in> set created. keywordSeq s < id_kw k)
          \<and> (\<forall>k. k \<in> set created \<longleftrightarrow>
                 (\<exists>i < length ds. calls ?r ! i = Settled (Inr k)))"
    using tab dist ids idx by blast
  have c6: "\<forall>later.
          (\<exists>new. keywordTable (snd (bulkCreateKeywords (sched @ later) s ds))
                    = keywordTable s' @ new)
        \<and> (result \<noteq> None \<longrightarrow> fst (bulkCreateKeywords (sched @ later) s ds) = result)"
    using later_rows later_result by blast
  have rejected: "\<exists>i < length ds. calls ?r ! i = Settled (Inl e)
               \<and> fst (createKeyword s (ds ! i)) = Inl e" if "result = Some (Inl e)" for e
  proof -
    from that have "rejection ?r = Some e"
      unfolding result by (simp only: promise_all_rejected)
    with bulk_run_rejection [where sched = sched and s = s and ds = ds]
    obtain i where i: "i < length ds" "calls ?r ! i = Settled (Inl e)"
      by auto
    from i bulk_run_rejected_call [OF i] show ?thesis
      by blast
  qed
  have c7: "\<forall>e. result = Some (Inl e) \<longrightarrow>
          ((\<exists>m. e = ValidationError m) \<or> (\<exists>m. e = NotFoundError m))
        \<and> (\<exists>i < length ds. calls ?r ! i = Settled (Inl e)
               \<and> fst (createKeyword s (ds ! i)) = Inl e)"
    using rejected createKeyword_error_kinds by blast
  have fulfilled: "calls ?r = map (\<lambda>k. Settled (Inr k)) ks" if "result = Some (Inr ks)" for ks
    using that unfolding result by (simp only: promise_all_fulfilled)
  have value_at: "fst (createKeyword s (ds ! i)) = Inr ((ks ! i)\<lparr> id_kw := keywordSeq s + 1 \<rparr>)"
    if "result = Some (Inr ks)" "i < length ds" for ks i
  proof -
    from fulfilled [OF that(1)] that(2) len have "calls ?r ! i = Settled (Inr (ks ! i))"
      by simp
    with that(2) show ?thesis
      by (rule bulk_run_fulfilled_call)
  qed
  have c8: "\<forall>ks. result = Some (Inr ks) \<longrightarrow>
          length ks = length ds
        \<and> (\<forall>i < length ds.
              fst (createKeyword s (ds ! i)) = Inr ((ks ! i)\<lparr> id_kw := keywordSeq s + 1 \<rparr>))
        \<and> distinct (map id_kw ks)
        \<and> set (keywordTable s') = set (keywordTable s) \<union> set ks
        \<and> length (keywordTable s') = length (keywordTable s) + length ds"
    unfolding s' using bulk_run_fulfilled_rows [OF fulfilled] value_at by blast
  have c9: "(\<exists>i < length ds. isl (fst (createKeyword s (ds ! i)))) \<longrightarrow>
          (\<forall>ks. result \<noteq> Some (Inr ks))"
  proof (intro impI allI notI)
    fix ks
    assume "\<exists>i < length ds. isl (fst (createKeyword s (ds ! i)))"
    then obtain i where "i < length ds" "isl (fst (createKeyword s (ds ! i)))"
      by blast
    moreover assume "result = Some (Inr ks)"
    ultimately show False
      using value_at [of ks i] by simp
  qed
  have c10: "(\<forall>i < length ds. 3 \<le> count_list sched i) \<longrightarrow>
          result \<noteq> None
        \<and> ((\<exists>i < length ds. isl (fst (createKeyword s (ds ! i)))) \<longrightarrow>
              (\<exists>e. result = Some (Inl e)))
        \<and> ((\<forall>i < length ds. \<not> isl (fst (createKeyword s (ds ! i)))) \<longrightarrow>
              (\<exists>ks. result = Some (Inr ks)))
        \<and> (\<forall>i < length ds. \<forall>k0. fst (createKeyword s (ds ! i)) = Inr k0 \<longrightarrow>
              (\<exists>k \<in> set (keywordTable s'). keywordSeq s < id_kw k
                  \<and> k = k0\<lparr> id_kw := id_kw k \<rparr>))"
  proof
    assume complete: "\<forall>i < length ds. 3 \<le> count_list sched i"
    have settled: "\<exists>x. calls ?r ! i = Settled x" if "i < length ds" for i
      using that complete by (intro bulk_run_settled) simp_all
    have some: "result \<noteq> None"
    proof (cases "rejection ?r")
      case (Some e)
      then show ?thesis
        unfolding result by (simp add: promise_all_def)
    next
      case None
      with bulk_run_rejection [where sched = sched and s = s and ds = ds]
      have "\<forall>i < length ds. \<forall>e. calls ?r ! i \<noteq> Settled (Inl e)"
        by simp
      with settled have "\<forall>i < length ds. \<exists>k. calls ?r ! i = Settled (Inr k)"
        by (metis sum.exhaust)
      with len have "\<forall>c \<in> set (calls ?r). \<exists>k. c = Settled (Inr k)"
        by (metis in_set_conv_nth)
      then obtain ks where "fulfilled_values (calls ?r) = Some ks"
        using fulfilled_values_all by blast
      with None show ?thesis
        unfolding result by (simp add: promise_all_def)
    qed
    have fails: "\<exists>e. result = Some (Inl e)"
      if "\<exists>i < length ds. isl (fst (createKeyword s (ds ! i)))"
    proof -
      from some obtain x where x: "result = Some x" by blast
      show ?thesis
      proof (cases x)
        case (Inl e)
        with x show ?thesis by simp
      next
        case (Inr ks)
        with x c9 that show ?thesis by blast
      qed
    qed
    have succeeds: "\<exists>ks. result = Some (Inr ks)"
      if "\<forall>i < length ds. \<not> isl (fst (createKeyword s (ds ! i)))"
    proof -
      from some obtain x where x: "result = Some x" by blast
      show ?thesis
      proof (cases x)
        case (Inl e)
        with x rejected [of e] that show ?thesis by force
      next
        case (Inr ks)
        with x show ?thesis by simp
      qed
    qed
    have rows: "\<exists>k \<in> set (keywordTable s'). keywordSeq s < id_kw k \<and> k = k0\<lparr> id_kw := id_kw k \<rparr>"
      if "i < length ds" "fst (createKeyword s (ds ! i)) = Inr k0" for i k0
    proof -
      from settled [OF that(1)] obtain x where x: "calls ?r ! i = Settled x"
        by blast
      show ?thesis
      proof (cases x)
        case (Inl e)
        with x have "calls ?r ! i = Settled (Inl e)" by simp
        from bulk_run_rejected_call [OF that(1) this] that(2) show ?thesis
          by simp
      next
        case (Inr k)
        with x have k: "calls ?r ! i = Settled (Inr k)" by simp
        from bulk_run_fulfilled_call [OF that(1) k] that(2)
        have "k0 = k\<lparr> id_kw := keywordSeq s + 1 \<rparr>"
          by simp
        then have "k = k0\<lparr> id_kw := id_kw k \<rparr>"
          by simp
        moreover from k that(1) idx have "k \<in> set created"
          by blast
        ultimately show ?thesis
          using tab ids by auto
      qed
    qed
    from some fails succeeds rows
    show "result \<noteq> None
        \<and> ((\<exists>i < length ds. isl (fst (createKeyword s (ds ! i)))) \<longrightarrow>
              (\<exists>e. result = Some (Inl e)))
        \<and> ((\<forall>i < length ds. \<not> isl (fst (createKeyword s (ds ! i)))) \<longrightarrow>
              (\<exists>ks. result = Some (Inr ks)))
        \<and> (\<forall>i < length ds. \<forall>k0. fst (createKeyword s (ds ! i)) = Inr k0 \<longrightarrow>
              (\<exists>k \<in> set (keywordTable s'). keywordSeq s < id_kw k
                  \<and> k = k0\<lparr> id_kw := id_kw k \<rparr>))"
      by blast
  qed
  show ?thesis
    apply (intro conjI)
             apply (rule c1)
            apply (rule c2)
           apply (rule c3)
          apply (rule c4)
         apply (rule c5)
        apply (rule c6)
       apply (rule c7)
      apply (rule c8)
     apply (rule c9)
    apply (rule c10)
    done
qed

theorem bulkCreateKeywords_no_rollback_witness:
  "fst (bulkCreateKeywords (in_turns 2) demo_store [dto_sandals, dto_cheap])
     = Some (Inr [kw_sandals, kw_cheap])
   \<and> keywordTable (snd (bulkCreateKeywords (in_turns 2) demo_store [dto_sandals, dto_cheap]))
     = [kw_shoes, kw_free, kw_boots, kw_cheap, kw_sandals]
   \<and> (\<forall>later. fst (bulkCreateKeywords (in_turns 2 @ later) demo_store [dto_sandals, dto_cheap])
                = Some (Inr [kw_sandals, kw_cheap]))
   \<and> fst (createKeyword demo_store dto_sandals) = Inr (kw_sandals\<lparr> id_kw := 4 \<rparr>)
   \<and> fst (bulkCreateKeywords [1, 1] demo_store
             [dto_sandals\<lparr> CreateKeywordDto.bid := 0 \<rparr>, dto_cheap])
     = Some (Inl (ValidationError ''Bid must be greater than 0''))
   \<and> (\<forall>later. kw_cheap \<in> set (keywordTable (snd (bulkCreateKeywords ([1, 1] @ later) demo_store
                                      [dto_sandals\<lparr> CreateKeywordDto.bid := 0 \<rparr>, dto_cheap]))))
   \<and> (\<forall>later. fst (bulkCreateKeywords ([1, 1] @ later) demo_store
                        [dto_sandals\<lparr> CreateKeywordDto.bid := 0 \<rparr>, dto_cheap])
                = Some (Inl (ValidationError ''Bid must be greater than 0'')))
   \<and> (\<exists>e. fst (bulkCreateKeywords (in_turns 2) demo_store
                  [dto_sandals\<lparr> CreateKeywordDto.bid := 0 \<rparr>, dto_cheap]) = Some (Inl e))
   \<and> (\<exists>k. k \<in> set (keywordTable (snd (bulkCreateKeywords (in_turns 2) demo_store
                                  [dto_sandals\<lparr> CreateKeywordDto.bid := 0 \<rparr>, dto_cheap])))
          \<and> k = kw_cheap\<lparr> id_kw := id_kw k \<rparr>)"
proof -
  let ?good = "[dto_sandals, dto_cheap]"
  let ?mixed = "[dto_sandals\<lparr> CreateKeywordDto.bid := 0 \<rparr>, dto_cheap]"
  let ?a = "bulkCreateKeywords (in_turns 2) demo_store ?good"
  let ?b = "bulkCreateKeywords [1, 1] demo_store ?mixed"
  have a: "?a = (Some (Inr [kw_sandals, kw_cheap]),
                 demo_store\<lparr> keywordTable := [kw_shoes, kw_free, kw_boots, kw_cheap, kw_sandals],
                             keywordSeq := 5 \<rparr>)"
    unfolding bulkCreateKeywords_run run_sandals_cheap by (simp add: promise_all_def)
  have b: "?b = (Some (Inl (ValidationError ''Bid must be greater than 0'')),
                 demo_store\<lparr> keywordTable := [kw_shoes, kw_free, kw_boots, kw_cheap],
                             keywordSeq := 4 \<rparr>)"
    unfolding bulkCreateKeywords_run run_bad_cheap by (simp add: promise_all_def)
  have cheap: "calls (bulk_run [1, 1] demo_store ?mixed) ! 1 = Settled (Inr kw_cheap)"
    unfolding run_bad_cheap by simp
  have seq: "keywordSeq demo_store + 1 = 4"
    by (simp add: demo_store_def)
  note good = bulkCreateKeywords_no_rollback [OF a]
  note mixed = bulkCreateKeywords_no_rollback [OF b]
  note good6 = good [THEN conjunct2, THEN conjunct2, THEN conjunct2, THEN conjunct2,
                     THEN conjunct2, THEN conjunct1]
  note good8 = good [THEN conjunct2, THEN conjunct2, THEN conjunct2, THEN conjunct2,
                     THEN conjunct2, THEN conjunct2, THEN conjunct2, THEN conjunct1]
  note mixed4 = mixed [THEN conjunct2, THEN conjunct2, THEN conjunct2, THEN conjunct1]
  note mixed6 = mixed [THEN conjunct2, THEN conjunct2, THEN conjunct2, THEN conjunct2,
                       THEN conjunct2, THEN conjunct1]
  from good6 have stable: "\<forall>later. fst (bulkCreateKeywords (in_turns 2 @ later) demo_store ?good)
                = Some (Inr [kw_sandals, kw_cheap])"
    by simp
  from good8 have "\<forall>i < length ?good. fst (createKeyword demo_store (?good ! i))
                = Inr (([kw_sandals, kw_cheap] ! i)\<lparr> id_kw := keywordSeq demo_store + 1 \<rparr>)"
    by simp
  then have "fst (createKeyword demo_store (?good ! 0))
                = Inr (([kw_sandals, kw_cheap] ! 0)\<lparr> id_kw := keywordSeq demo_store + 1 \<rparr>)"
    by (rule allE [of _ 0]) simp
  then have alone: "fst (createKeyword demo_store dto_sandals) = Inr (kw_sandals\<lparr> id_kw := 4 \<rparr>)"
    by (simp add: seq)
  from mixed4 [THEN spec, of 1, THEN mp, THEN spec, of kw_cheap, THEN mp, OF _ cheap]
  have kept: "\<forall>later. kw_cheap \<in> set (keywordTable (snd (bulkCreateKeywords ([1, 1] @ later)
                                      demo_store ?mixed)))"
    by simp
  from mixed6 have failed: "\<forall>later. fst (bulkCreateKeywords ([1, 1] @ later) demo_store ?mixed)
                = Some (Inl (ValidationError ''Bid must be greater than 0''))"
    by simp
  let ?c = "bulkCreateKeywords (in_turns 2) demo_store ?mixed"
  have c: "?c = (fst ?c, snd ?c)"
    by simp
  have turns: "\<forall>i < length ?mixed. 3 \<le> count_list (in_turns 2) i"
    by (simp add: in_turns_2 less_Suc_eq)
  have bad: "\<exists>i < length ?mixed. isl (fst (createKeyword demo_store (?mixed ! i)))"
    by (intro exI [of _ 0]) (simp add: createKeyword_bid_rejected dto_sandals_def)
  have cheap_alone: "fst (createKeyword demo_store (?mixed ! 1)) = Inr kw_cheap"
    by (simp add: createKeyword_cheap)
  note settled = bulkCreateKeywords_no_rollback [OF c, THEN conjunct2, THEN conjunct2,
      THEN conjunct2, THEN conjunct2, THEN conjunct2, THEN conjunct2, THEN conjunct2,
      THEN conjunct2, THEN conjunct2, THEN mp, OF turns]
  from settled [THEN conjunct2, THEN conjunct1, THEN mp, OF bad]
  have rejected: "\<exists>e. fst ?c = Some (Inl e)" .
  from settled [THEN conjunct2, THEN conjunct2, THEN conjunct2, THEN spec, of 1, THEN mp,
             THEN spec, of kw_cheap, THEN mp, OF _ cheap_alone]
  have row: "\<exists>k. k \<in> set (keywordTable (snd ?c)) \<and> k = kw_cheap\<lparr> id_kw := id_kw k \<rparr>"
    by auto
  from stable alone kept failed rejected row show ?thesis
    by (simp add: a b)
qed

text \<open>
  The failure reported is the one that comes first in time: with an entry whose ad group is
  missing before an entry whose campaign is missing, the missing campaign is found after
  one answer and wins when the answers come in turns, while the missing ad group wins when
  the first call is answered twice before the second. As long as a call is suspended and
  none has failed, there is no result.
\<close>

lemma run_orphan_lost_in_turns:
  "bulkCreateKeywords (in_turns 2) demo_store [dto_orphan, dto_lost] =
     (Some (Inl (NotFoundError ''Campaign not found'')), demo_store)"
  by (simp add: in_turns_2 bulkCreateKeywords_def promise_all_def bulk_run_eval)

lemma run_orphan_lost_first:
  "bulkCreateKeywords [0, 0, 1] demo_store [dto_orphan, dto_lost] =
     (Some (Inl (NotFoundError ''Ad group not found'')), demo_store)"
  by (simp add: bulkCreateKeywords_def promise_all_def bulk_run_eval)

lemma run_pending:
  "bulkCreateKeywords [0, 1] demo_store [dto_sandals, dto_cheap] = (None, demo_store)"
  by (simp add: bulkCreateKeywords_def promise_all_def bulk_run_eval)

subsection \<open>The local list after a delete\<close>

lemma getCampaignKeywords_unfiltered:
  "set (getCampaignKeywords s cid None) = {k \<in> set (keywordTable s). Keyword.campaignId k = cid}"
  by (auto simp: getCampaignKeywords_def prisma_keyword_findMany_def keyword_where_def)

lemma getCampaignKeywords_by_status:
  "set (getCampaignKeywords s cid
          (Some \<lparr> KeywordFilters.adGroupId = None, KeywordFilters.matchType = None,
                  KeywordFilters.status = Some st, KeywordFilters.isNegative = None \<rparr>))
     = {k \<in> set (keywordTable s). Keyword.campaignId k = cid \<and> Keyword.status k = st}"
  by (auto simp: getCampaignKeywords_def prisma_keyword_findMany_def keyword_where_def)

text \<open>
  Claim C10. The reducer's case for a fulfilled \<open>deleteKeyword\<close> action with payload \<open>i\<close>
  sets \<open>loading\<close> to false and replaces the local list by the keywords whose id is not
  \<open>i\<close>, in their order: no keyword with that id is left in it. The service only archives:
  after a successful \<open>deleteKeyword\<close> on a stored keyword, the row with status ARCHIVED is
  in the table, and the listing of its campaign returns it, without a filter and with the
  filter for status ARCHIVED. So the local list no longer shows a keyword that a refetch of
  the campaign's keywords would bring back as ARCHIVED.
\<close>

theorem deleteKeyword_fulfilled_drops_keyword:
  "keywords' (keywordSlice_reducer st (DeleteKeywordFulfilled i))
     = filter (\<lambda>r. id_kw r \<noteq> i) (keywords' st)
   \<and> \<not> (\<exists>r \<in> set (keywords' (keywordSlice_reducer st (DeleteKeywordFulfilled i))). id_kw r = i)
   \<and> \<not> loading (keywordSlice_reducer st (DeleteKeywordFulfilled i))
   \<and> error (keywordSlice_reducer st (DeleteKeywordFulfilled i)) = error st
   \<and> selectedKeyword (keywordSlice_reducer st (DeleteKeywordFulfilled i)) = selectedKeyword st
   \<and> (unique_ids srv \<and> k \<in> set (keywordTable srv) \<and> id_kw k = i
        \<and> deleteKeyword srv i (Keyword.campaignId k) = (Inr (), srv') \<longrightarrow>
        k\<lparr> Keyword.status := ARCHIVED \<rparr> \<in> set (keywordTable srv')
      \<and> k\<lparr> Keyword.status := ARCHIVED \<rparr> \<in> set (getCampaignKeywords srv' (Keyword.campaignId k) None)
      \<and> k\<lparr> Keyword.status := ARCHIVED \<rparr>
          \<in> set (getCampaignKeywords srv' (Keyword.campaignId k)
                    (Some \<lparr> KeywordFilters.adGroupId = None, KeywordFilters.matchType = None,
                            KeywordFilters.status = Some ARCHIVED,
                            KeywordFilters.isNegative = None \<rparr>))
      \<and> k\<lparr> Keyword.status := ARCHIVED \<rparr>
          \<in> set (keywords' (keywordSlice_reducer
                              (keywordSlice_reducer st (DeleteKeywordFulfilled i))
                              (FetchCampaignKeywordsFulfilled
                                 (getCampaignKeywords srv' (Keyword.campaignId k) None)))))"
proof (intro conjI impI)
  assume a: "unique_ids srv \<and> k \<in> set (keywordTable srv) \<and> id_kw k = i
        \<and> deleteKeyword srv i (Keyword.campaignId k) = (Inr (), srv')"
  then have "prisma_keyword_findFirst srv' (id_kw k) (Keyword.campaignId k)
                = Some (k\<lparr> Keyword.status := ARCHIVED \<rparr>)"
    by (intro deleteKeyword_archived_row [of srv]) simp_all
  then show row: "k\<lparr> Keyword.status := ARCHIVED \<rparr> \<in> set (keywordTable srv')"
    by (simp add: findFirst_props)
  then show listed: "k\<lparr> Keyword.status := ARCHIVED \<rparr>
      \<in> set (getCampaignKeywords srv' (Keyword.campaignId k) None)"
    by (simp add: getCampaignKeywords_unfiltered)
  from row show "k\<lparr> Keyword.status := ARCHIVED \<rparr>
          \<in> set (getCampaignKeywords srv' (Keyword.campaignId k)
                    (Some \<lparr> KeywordFilters.adGroupId = None, KeywordFilters.matchType = None,
                            KeywordFilters.status = Some ARCHIVED,
                            KeywordFilters.isNegative = None \<rparr>))"
    by (simp add: getCampaignKeywords_by_status)
  from listed show "k\<lparr> Keyword.status := ARCHIVED \<rparr>
          \<in> set (keywords' (keywordSlice_reducer
                              (keywordSlice_reducer st (DeleteKeywordFulfilled i))
                              (FetchCampaignKeywordsFulfilled
                                 (getCampaignKeywords srv' (Keyword.campaignId k) None))))"
    by simp
qed simp_all

theorem deleteKeyword_fulfilled_drops_keyword_witness:
  "keywords' (keywordSlice_reducer local_state (DeleteKeywordFulfilled 1)) = [kw_free]
   \<and> \<not> loading (keywordSlice_reducer local_state (DeleteKeywordFulfilled 1))
   \<and> kw_shoes\<lparr> Keyword.status := ARCHIVED \<rparr>
        \<in> set (getCampaignKeywords (snd (deleteKeyword demo_store 1 1)) 1 None)"
proof -
  have shoes: "kw_shoes \<in> set (keywordTable demo_store)" "id_kw kw_shoes = 1"
    "Keyword.campaignId kw_shoes = 1" "id_kw kw_free \<noteq> 1"
    by (simp_all add: demo_store_def kw_shoes_def kw_free_def)
  have run: "deleteKeyword demo_store 1 1 = (Inr (), snd (deleteKeyword demo_store 1 1))"
    using deleteKeyword_found [OF demo_store_unique_ids demo_store_findFirst(1)] by simp
  note rule = deleteKeyword_fulfilled_drops_keyword
    [of local_state 1 demo_store kw_shoes "snd (deleteKeyword demo_store 1 1)", unfolded shoes(3)]
  have local: "filter (\<lambda>r. id_kw r \<noteq> 1) (keywords' local_state) = [kw_free]"
    by (simp add: local_state_def shoes)
  from rule demo_store_unique_ids shoes(1,2) run
  have "kw_shoes\<lparr> Keyword.status := ARCHIVED \<rparr>
        \<in> set (getCampaignKeywords (snd (deleteKeyword demo_store 1 1)) 1 None)"
    by blast
  moreover from rule have "keywords' (keywordSlice_reducer local_state (DeleteKeywordFulfilled 1)) = [kw_free]"
    "\<not> loading (keywordSlice_reducer local_state (DeleteKeywordFulfilled 1))"
    unfolding local by blast+
  ultimately show ?thesis by blast
qed

subsection \<open>Rounding to a double\<close>

lemma round_half_even_cases:
  "round_half_even q = \<lfloor>q\<rfloor> \<and> q - of_int \<lfloor>q\<rfloor> \<le> 1 / 2
   \<or> round_half_even q = \<lfloor>q\<rfloor> + 1 \<and> 1 / 2 \<le> q - of_int \<lfloor>q\<rfloor>"
  by (auto simp: round_half_even_def Let_def)

lemma round_half_even_close: "\<bar>of_int (round_half_even q) - q\<bar> \<le> 1 / 2"
proof -
  have "of_int \<lfloor>q\<rfloor> \<le> q" "q < of_int \<lfloor>q\<rfloor> + 1"
    by linarith+
  with round_half_even_cases [of q] show ?thesis
    by (auto simp: abs_le_iff)
qed

lemma round_half_even_of_int [simp]: "round_half_even (of_int n) = n"
  by (simp add: round_half_even_def)

lemma round_half_even_nonneg: "0 \<le> q \<Longrightarrow> 0 \<le> round_half_even q"
  using round_half_even_cases [of q] by (auto simp: zero_le_floor)

lemma round_half_even_mono_one: "1 \<le> q \<Longrightarrow> 1 \<le> round_half_even q"
proof -
  assume "1 \<le> q"
  then have "1 \<le> \<lfloor>q\<rfloor>" by (simp add: le_floor_iff)
  with round_half_even_cases [of q] show ?thesis by auto
qed

lemma powi_neg: "0 \<le> n \<Longrightarrow> (2::rat) powi (- n) = 1 / 2 ^ nat n"
  by (simp only: power_int_minus_divide power_int_nonneg_exp)

lemma powi_Suc: "(2::rat) powi (e + 1) = 2 powi e * 2"
  by (simp add: power_int_add)

lemma floor_log2_bounds:
  assumes "0 < q"
  shows "2 powi floor_log2 q \<le> q \<and> q < 2 powi (floor_log2 q + 1)"
proof (cases "1 \<le> q")
  case True
  define f where "f = \<lfloor>q\<rfloor>"
  define b where "b = bitlen f"
  from True have f: "1 \<le> f" by (simp add: f_def le_floor_iff)
  then have bb: "2 ^ nat (b - 1) \<le> f" "f < 2 ^ nat b"
    using bitlen_bounds [of f] by (simp_all add: b_def)
  from f have b1: "1 \<le> b"
    unfolding b_def using bitlen_eq_zero_iff [of f] bitlen_nonneg [of f] by linarith
  have e: "floor_log2 q = b - 1"
    using True by (simp add: floor_log2_def f_def b_def)
  have fq: "of_int f \<le> q" "q < of_int f + 1"
    unfolding f_def by linarith+
  have "(2::rat) powi (b - 1) = 2 ^ nat (b - 1)"
    using b1 by (simp add: power_int_nonneg_exp)
  also have "\<dots> = of_int (2 ^ nat (b - 1))" by simp
  also have "\<dots> \<le> of_int f" using bb(1) by (simp only: of_int_le_iff)
  finally have lo: "2 powi (b - 1) \<le> q" using fq(1) by linarith
  have "f + 1 \<le> 2 ^ nat b" using bb(2) by simp
  then have "(of_int (f + 1) :: rat) \<le> of_int (2 ^ nat b)" by (simp only: of_int_le_iff)
  then have "of_int f + 1 \<le> (2::rat) ^ nat b" by simp
  also have "\<dots> = 2 powi b" using b1 by (simp add: power_int_nonneg_exp)
  finally have hi: "q < 2 powi b" using fq(2) by linarith
  from lo hi show ?thesis by (simp add: e)
next
  case False
  define y where "y = 1 / q"
  define f where "f = \<lfloor>y\<rfloor>"
  define b where "b = bitlen f"
  from False assms have y1: "1 < y" by (simp add: y_def)
  then have f: "1 \<le> f" by (simp add: f_def le_floor_iff)
  then have bb: "2 ^ nat (b - 1) \<le> f" "f < 2 ^ nat b"
    using bitlen_bounds [of f] by (simp_all add: b_def)
  from f have b1: "1 \<le> b"
    unfolding b_def using bitlen_eq_zero_iff [of f] bitlen_nonneg [of f] by linarith
  have fy: "of_int f \<le> y" "y < of_int f + 1"
    unfolding f_def by linarith+
  have "(2::rat) ^ nat (b - 1) = of_int (2 ^ nat (b - 1))" by simp
  also have "\<dots> \<le> of_int f" using bb(1) by (simp only: of_int_le_iff)
  also have "\<dots> \<le> y" by (rule fy(1))
  finally have ylo: "(2::rat) ^ nat (b - 1) \<le> y" .
  have "f + 1 \<le> 2 ^ nat b" using bb(2) by simp
  then have "(of_int (f + 1) :: rat) \<le> of_int (2 ^ nat b)" by (simp only: of_int_le_iff)
  then have "of_int f + 1 \<le> (2::rat) ^ nat b" by simp
  with fy(2) have yhi: "y < (2::rat) ^ nat b" by linarith
  have q: "q = 1 / y" by (simp add: y_def)
  have pos: "0 < y" using y1 by simp
  show ?thesis
  proof (cases "y = 2 ^ nat (b - 1)")
    case True
    with y1 have "nat (b - 1) \<noteq> 0" by (auto intro: ccontr)
    then have b2: "2 \<le> b" by simp
    have e: "floor_log2 q = - (b - 1)"
      using False True by (simp add: floor_log2_def y_def f_def b_def Let_def)
    have "(2::rat) powi (- (b - 1)) = 1 / 2 ^ nat (b - 1)"
      using b1 by (intro powi_neg) simp
    then have lo: "2 powi (- (b - 1)) = q" using True q by simp
    have "(2::rat) powi (- (b - 1) + 1) = 2 powi (- (b - 1)) * 2"
      by (rule powi_Suc)
    with lo assms have hi: "q < 2 powi (- (b - 1) + 1)" by simp
    from lo hi show ?thesis by (simp add: e)
  next
    case neq: False
    have e: "floor_log2 q = - b"
      using False neq by (simp add: floor_log2_def y_def f_def b_def Let_def)
    have "(2::rat) powi (- b) = 1 / 2 ^ nat b"
      using b1 by (intro powi_neg) simp
    also have "\<dots> < 1 / y" using yhi pos by (simp add: frac_less2)
    finally have lo: "2 powi (- b) \<le> q" using q by simp
    have "- b + 1 = - (b - 1)" by simp
    then have "(2::rat) powi (- b + 1) = 1 / 2 ^ nat (b - 1)"
      using b1 powi_neg [of "b - 1"] by simp
    moreover have "1 / y < 1 / (2::rat) ^ nat (b - 1)"
      using ylo neq by (intro divide_strict_left_mono) (auto simp: pos)
    ultimately have hi: "q < 2 powi (- b + 1)" using q by simp
    from lo hi show ?thesis by (simp add: e)
  qed
qed

lemma floor_log2_unique:
  assumes "0 < q" and "2 powi e \<le> q" and "q < 2 powi (e + 1)"
  shows "floor_log2 q = e"
proof (rule ccontr)
  assume neq: "floor_log2 q \<noteq> e"
  from floor_log2_bounds [OF assms(1)]
  have b: "2 powi floor_log2 q \<le> q" "q < 2 powi (floor_log2 q + 1)"
    by simp_all
  show False
  proof (cases "floor_log2 q < e")
    case True
    then have "(2::rat) powi (floor_log2 q + 1) \<le> 2 powi e"
      by (intro power_int_increasing) simp_all
    with b(2) assms(2) show False by linarith
  next
    case False
    with neq have "(2::rat) powi (e + 1) \<le> 2 powi floor_log2 q"
      by (intro power_int_increasing) simp_all
    with b(1) assms(3) show False by linarith
  qed
qed

lemma exponent_of_at:
  assumes "0 < q" and "2 powi e \<le> q" and "q < 2 powi (e + 1)" and "- 1022 \<le> e"
  shows "exponent_of q = e"
  using floor_log2_unique [OF assms(1-3)] assms(4) by (simp add: exponent_of_def)

lemma ulp_of_pos: "0 < ulp_of a"
  by (simp add: ulp_of_def)

lemma nearest_multiple_nonneg: "0 \<le> a \<Longrightarrow> 0 \<le> nearest_multiple a"
  unfolding nearest_multiple_def
  using ulp_of_pos [of a] round_half_even_nonneg [of "a / ulp_of a"] by simp

lemma round_to_double_at:
  assumes "0 < q" and "2 powi e \<le> q" and "q < 2 powi (e + 1)" and "- 1022 \<le> e"
    and "m = of_int (round_half_even (q / 2 powi (e - 52))) * 2 powi (e - 52)"
    and "m < 2 ^ 1024"
  shows "round_to_double q = Finite m"
proof -
  have "exponent_of q = e"
    using assms(1-4) by (rule exponent_of_at)
  then have "nearest_multiple q = m"
    by (simp only: nearest_multiple_def ulp_of_def assms(5))
  moreover have "\<bar>q\<bar> = q" "q \<noteq> 0"
    using assms(1) by simp_all
  ultimately show ?thesis
    using assms(1,6) by (simp only: round_to_double_def Let_def overflow_threshold_def) simp
qed

lemma round_to_double_exact:
  assumes "0 < q" and "2 powi e \<le> q" and "q < 2 powi (e + 1)" and "- 1022 \<le> e" and "e < 1024"
    and "q / 2 powi (e - 52) = of_int k"
  shows "round_to_double q = Finite q"
proof -
  have "q = of_int k * 2 powi (e - 52)"
    using assms(6) by (simp add: field_simps)
  then have m: "q = of_int (round_half_even (q / 2 powi (e - 52))) * 2 powi (e - 52)"
    by (simp add: assms(6))
  have "(2::rat) powi (e + 1) \<le> 2 powi 1024"
    using assms(5) by (intro power_int_increasing) simp_all
  also have "\<dots> = 2 ^ 1024"
    by (rule power_int_numeral)
  finally have "q < 2 ^ 1024"
    using assms(3) by (rule less_le_trans [rotated])
  with assms(1-4) m show ?thesis
    by (rule round_to_double_at)
qed

lemma round_to_double_nonpositive:
  assumes "q \<le> 0"
  shows "\<not> js_positive (round_to_double q)"
proof (cases "q = 0")
  case True
  then show ?thesis by (simp add: round_to_double_def)
next
  case False
  with assms have neg: "q < 0" by simp
  have "0 \<le> nearest_multiple \<bar>q\<bar>"
    by (rule nearest_multiple_nonneg) simp
  with neg show ?thesis
    by (simp add: round_to_double_def Let_def)
qed

lemma round_to_double_positive:
  assumes "2 powi (- 1074) \<le> q"
  shows "js_positive (round_to_double q)"
proof -
  have "(0::rat) < 2 powi (- 1074)"
    by (rule zero_less_power_int) simp
  then have pos: "0 < q" using assms by (rule less_le_trans)
  have "ulp_of q \<le> q"
  proof (cases "floor_log2 q \<le> - 1022")
    case True
    then have "exponent_of q - 52 = - 1074" by (simp add: exponent_of_def)
    then have "ulp_of q = 2 powi (- 1074)" by (simp only: ulp_of_def)
    with assms show ?thesis by (simp only:)
  next
    case False
    then have "exponent_of q = floor_log2 q" by (simp add: exponent_of_def)
    then have "ulp_of q \<le> 2 powi floor_log2 q"
      unfolding ulp_of_def by (intro power_int_increasing) simp_all
    with floor_log2_bounds [OF pos] show ?thesis by linarith
  qed
  then have "1 \<le> q / ulp_of q" using ulp_of_pos [of q] by (simp add: field_simps)
  then have "1 \<le> round_half_even (q / ulp_of q)" by (rule round_half_even_mono_one)
  then have "(1::rat) \<le> of_int (round_half_even (q / ulp_of q))" by simp
  then have "0 < nearest_multiple q"
    unfolding nearest_multiple_def using ulp_of_pos [of q] by simp
  with pos show ?thesis
    by (simp add: round_to_double_def Let_def)
qed

lemma nearest_multiple_close:
  assumes "0 < a"
  shows "\<bar>nearest_multiple a - a\<bar> \<le> ulp_of a / 2"
proof -
  let ?u = "ulp_of a"
  let ?n = "of_int (round_half_even (a / ?u)) :: rat"
  have u: "0 < ?u" by (rule ulp_of_pos)
  have "\<bar>?n - a / ?u\<bar> \<le> 1 / 2"
    by (rule round_half_even_close)
  then have "\<bar>?n - a / ?u\<bar> * ?u \<le> 1 / 2 * ?u"
    using u by (intro mult_right_mono) simp_all
  moreover have "\<bar>?n - a / ?u\<bar> * ?u = \<bar>(?n - a / ?u) * ?u\<bar>"
    using u by (simp add: abs_mult)
  moreover have "(?n - a / ?u) * ?u = nearest_multiple a - a"
    using u by (simp add: nearest_multiple_def left_diff_distrib)
  ultimately show ?thesis by simp
qed

lemma round_to_double_error:
  assumes "2 powi (- 1022) \<le> q" and "round_to_double q = Finite m"
  shows "\<bar>m - q\<bar> \<le> q / 2 ^ 53"
proof -
  have "(0::rat) < 2 powi (- 1022)"
    by (rule zero_less_power_int) simp
  then have pos: "0 < q" using assms(1) by (rule less_le_trans)
  from assms(2) pos have m: "m = nearest_multiple q"
    by (simp add: round_to_double_def Let_def split: if_splits)
  have "- 1022 \<le> floor_log2 q"
  proof (rule ccontr)
    assume "\<not> - 1022 \<le> floor_log2 q"
    then have "floor_log2 q + 1 \<le> - 1022" by simp
    then have "(2::rat) powi (floor_log2 q + 1) \<le> 2 powi (- 1022)"
      by (intro power_int_increasing) simp_all
    with floor_log2_bounds [OF pos] assms(1) show False by linarith
  qed
  then have e: "exponent_of q = floor_log2 q" by (simp add: exponent_of_def)
  have "ulp_of q / 2 = 2 powi (floor_log2 q - 52) / 2"
    by (simp only: ulp_of_def e)
  also have "\<dots> = 2 powi floor_log2 q / 2 ^ 53"
    by (simp add: power_int_diff)
  also have "\<dots> \<le> q / 2 ^ 53"
    using floor_log2_bounds [OF pos] by (simp add: divide_right_mono)
  finally show ?thesis
    using nearest_multiple_close [OF pos] m by linarith
qed

subsection \<open>Rendering with two decimals\<close>

lemma digits_small: "n < 10 \<Longrightarrow> digits n = [digit_char n]"
  by (subst digits.simps) simp

lemma digits_step: "10 \<le> n \<Longrightarrow> digits n = digits (n div 10) @ [digit_char (n mod 10)]"
  by (subst digits.simps) simp

lemma digits_nonempty: "digits n \<noteq> []"
  by (subst digits.simps) simp

lemma digits_length: "Suc 0 \<le> length (digits n)"
  using digits_nonempty [of n] by (cases "digits n") simp_all

lemma digits_two: "10 \<le> n \<Longrightarrow> n < 100 \<Longrightarrow> digits n = [digit_char (n div 10), digit_char (n mod 10)]"
  by (simp add: digits_step digits_small)

lemma digits_hundreds:
  assumes "100 \<le> n"
  shows "digits n = digits (n div 100) @ [digit_char (n div 10 mod 10), digit_char (n mod 10)]"
proof -
  from assms have "10 \<le> n" "10 \<le> n div 10" by simp_all
  then have "digits n = (digits (n div 10 div 10) @ [digit_char (n div 10 mod 10)]) @ [digit_char (n mod 10)]"
    by (simp only: digits_step)
  moreover have "n div 10 div 10 = n div 100"
    by (simp add: div_mult2_eq [symmetric])
  ultimately show ?thesis by simp
qed

lemma toFixed_2_places:
  assumes "\<bar>v\<bar> < 10 ^ 21"
  shows "toFixed 2 (Finite v) = rounded_to_2_places v"
proof -
  define n where "n = \<lfloor>\<bar>v\<bar> * 100 + 1 / 2\<rfloor>"
  have n0: "0 \<le> n" by (simp add: n_def)
  let ?s = "if v < 0 then ''-'' else []"
  let ?m = "digits n"
  let ?z = "replicate (3 - length ?m) CHR ''0'' @ ?m"
  have lhs: "toFixed 2 (Finite v) = ?s @ take (length ?z - 2) ?z @ ''.'' @ drop (length ?z - 2) ?z"
    using assms by (simp add: toFixed_def Let_def n_def)
  have rhs: "rounded_to_2_places v =
      ?s @ digits (n div 100) @ ''.'' @ [digit_char (n div 10 mod 10), digit_char (n mod 10)]"
    by (simp add: rounded_to_2_places_def Let_def n_def)
  have zero: "digit_char 0 = CHR ''0''" by (simp add: digit_char_def)
  consider "n < 10" | "10 \<le> n" "n < 100" | "100 \<le> n" by linarith
  then have "take (length ?z - 2) ?z @ ''.'' @ drop (length ?z - 2) ?z =
      digits (n div 100) @ ''.'' @ [digit_char (n div 10 mod 10), digit_char (n mod 10)]"
  proof cases
    case 1
    with n0 have "n div 100 = 0" "n div 10 = 0" "n mod 10 = n" by simp_all
    with 1 show ?thesis
      by (simp add: digits_small zero numeral_3_eq_3)
  next
    case 2
    with n0 have "n div 100 = 0" "n div 10 mod 10 = n div 10" by simp_all
    with 2 show ?thesis
      by (simp add: digits_two digits_small zero)
  next
    case 3
    then have m: "digits n = digits (n div 100) @ [digit_char (n div 10 mod 10), digit_char (n mod 10)]"
      by (rule digits_hundreds)
    have "3 - length (digits n) = 0"
      using digits_length [of "n div 100"] by (simp add: m)
    then have z: "replicate (3 - length (digits n)) CHR ''0'' @ digits n = digits n"
      by simp
    show ?thesis
      unfolding z by (simp add: m)
  qed
  with lhs rhs show ?thesis by simp
qed

lemma rounded_to_2_places_error:
  fixes v :: rat
  shows "\<bar>of_int \<lfloor>\<bar>v\<bar> * 100 + 1 / 2\<rfloor> / 100 - \<bar>v\<bar>\<bar> \<le> 1 / 200"
proof -
  define a where "a = \<bar>v\<bar>"
  define n :: rat where "n = of_int \<lfloor>a * 100 + 1 / 2\<rfloor>"
  have "n \<le> a * 100 + 1 / 2" "a * 100 + 1 / 2 < n + 1"
    unfolding n_def by linarith+
  then have "n / 100 - a \<le> 1 / 200" "- (n / 100 - a) \<le> 1 / 200"
    by linarith+
  then have "\<bar>n / 100 - a\<bar> \<le> 1 / 200"
    by (simp only: abs_le_iff)
  then show ?thesis
    by (simp only: n_def a_def)
qed

subsection \<open>The examples of the statistics\<close>

lemma decimal_of_snoc: "decimal_of (cs @ [c]) = 10 * decimal_of cs + (of_char c - 48)"
  by (simp add: decimal_of_def)

lemma digit_char_value: "0 \<le> d \<Longrightarrow> d < 10 \<Longrightarrow> of_char (digit_char d) - 48 = d"
proof -
  assume "0 \<le> d" "d < 10"
  then have "d = 0 \<or> d = 1 \<or> d = 2 \<or> d = 3 \<or> d = 4 \<or> d = 5 \<or> d = 6 \<or> d = 7 \<or> d = 8 \<or> d = 9"
    by arith
  then show ?thesis
    by (elim disjE) (simp_all add: digit_char_def)
qed

lemma decimal_of_digits: "0 \<le> n \<Longrightarrow> decimal_of (digits n) = n"
proof (induction n rule: digits.induct)
  case (1 n)
  show ?case
  proof (cases "n < 10")
    case True
    with "1.prems" show ?thesis
      using decimal_of_snoc [of "[]" "digit_char n"]
      by (simp add: digits_small digit_char_value decimal_of_def)
  next
    case False
    with "1.prems" have "decimal_of (digits (n div 10)) = n div 10"
      by (intro "1.IH") simp_all
    moreover have "of_char (digit_char (n mod 10)) - 48 = n mod 10"
      by (intro digit_char_value) simp_all
    ultimately show ?thesis
      using False by (simp add: digits_step decimal_of_snoc)
  qed
qed

lemma floor_quotient [simp]: "\<lfloor>(numeral a :: rat) / numeral b\<rfloor> = numeral a div numeral b"
  using floor_divide_of_int_eq [of "numeral a" "numeral b", where ?'a = rat] by simp

lemma floor_one_quotient [simp]: "\<lfloor>(1 :: rat) / numeral b\<rfloor> = 1 div numeral b"
  using floor_divide_of_int_eq [of 1 "numeral b", where ?'a = rat] by simp

lemma double_50: "round_to_double 50 = Finite 50"
  by (rule round_to_double_exact [where e = 5 and k = "50 * 2 ^ 47"]) simp_all

lemma double_1000: "round_to_double 1000 = Finite 1000"
  by (rule round_to_double_exact [where e = 9 and k = "1000 * 2 ^ 43"]) simp_all

lemma double_5: "round_to_double 5 = Finite 5"
  by (rule round_to_double_exact [where e = 2 and k = "5 * 2 ^ 50"]) simp_all

lemma double_25: "round_to_double 25 = Finite 25"
  by (rule round_to_double_exact [where e = 4 and k = "25 * 2 ^ 48"]) simp_all

lemma double_100: "round_to_double 100 = Finite 100"
  by (rule round_to_double_exact [where e = 6 and k = "100 * 2 ^ 46"]) simp_all

lemma double_half: "round_to_double (1 / 2) = Finite (1 / 2)"
  by (rule round_to_double_exact [where e = "- 1" and k = "2 ^ 52"]) simp_all

lemma double_quarter: "round_to_double (1 / 4) = Finite (1 / 4)"
  by (rule round_to_double_exact [where e = "- 2" and k = "2 ^ 52"]) simp_all

lemma double_twentieth:
  "round_to_double (1 / 20) = Finite (3602879701896397 / 72057594037927936)"
  by (rule round_to_double_at [where e = "- 5"]) (simp_all add: round_half_even_def Let_def)

lemma double_tenth:
  "round_to_double (1 / 10) = Finite (3602879701896397 / 36028797018963968)"
  by (rule round_to_double_at [where e = "- 4"]) (simp_all add: round_half_even_def Let_def)

lemma double_five_and_a_bit:
  "round_to_double (90071992547409925 / 18014398509481984) = Finite 5"
  by (rule round_to_double_at [where e = 2]) (simp_all add: round_half_even_def Let_def)

lemma double_ten_and_a_bit:
  "round_to_double (90071992547409925 / 9007199254740992) = Finite 10"
  by (rule round_to_double_at [where e = 3]) (simp_all add: round_half_even_def Let_def)

lemma ctr_example:
  "js_mul (js_div (number_of_int 50) (number_of_int 1000)) (Finite 100) = Finite 5"
  by (simp add: number_of_int_def double_50 double_1000 double_twentieth double_five_and_a_bit)

lemma cvr_example:
  "js_mul (js_div (number_of_int 5) (number_of_int 50)) (Finite 100) = Finite 10"
  by (simp add: number_of_int_def double_50 double_5 double_tenth double_ten_and_a_bit)

lemma cpc_example:
  "js_div (Number_of_decimal 25) (number_of_int 50) = Finite (1 / 2)"
  by (simp add: number_of_int_def Number_of_decimal_def double_50 double_25 double_half)

lemma acos_example:
  "js_mul (js_div (Number_of_decimal 25) (Number_of_decimal 100)) (Finite 100) = Finite 25"
  by (simp add: Number_of_decimal_def double_100 double_25 double_quarter)

lemma rendered_examples:
  "toFixed 2 (Finite 5) = ''5.00''" "toFixed 2 (Finite 10) = ''10.00''"
  "toFixed 2 (Finite (1 / 2)) = ''0.50''" "toFixed 2 (Finite 25) = ''25.00''"
  by (simp_all add: toFixed_2_places rounded_to_2_places_def digits_small digits_two digit_char_def)

lemma double_1: "round_to_double 1 = Finite 1"
  by (rule round_to_double_exact [where e = 0 and k = "2 ^ 52"]) simp_all

lemma double_1e21: "round_to_double 1000000000000000000000 = Finite 1000000000000000000000"
  by (rule round_to_double_exact [where e = 69 and k = 7629394531250000]) simp_all

lemma double_2e21: "round_to_double 2000000000000000000000 = Finite 2000000000000000000000"
  by (rule round_to_double_exact [where e = 70 and k = 7629394531250000]) simp_all

lemma double_1e22: "round_to_double 10000000000000000000000 = Finite 10000000000000000000000"
  by (rule round_to_double_exact [where e = 73 and k = 4768371582031250]) simp_all

lemma digits_1e21: "length (digits 1000000000000000000000) = 22"
  by (simp add: digits_step digits_small)

lemma exponential_1e21: "exponential_notation 1000000000000000000000 = ''1e+21''"
  by (simp add: exponential_notation_def digits_1e21 eval_nat_numeral digit_candidates_def
        double_1e21 double_2e21 double_1e22 digits_small digits_two digit_char_def Let_def)

lemma toFixed_1e21: "toFixed 2 (Finite 1000000000000000000000) = ''1e+21''"
  by (simp add: toFixed_def exponential_1e21)

subsection \<open>The statistics of a keyword\<close>

lemma digit_char_is_digit:
  assumes "0 \<le> d" and "d < 10"
  shows "digit_char d \<noteq> CHR ''.'' \<and> digit_char d \<noteq> CHR ''-''"
proof -
  from assms have "d = 0 \<or> d = 1 \<or> d = 2 \<or> d = 3 \<or> d = 4 \<or> d = 5 \<or> d = 6 \<or> d = 7 \<or> d = 8 \<or> d = 9"
    by arith
  then show ?thesis
    by (elim disjE) (simp_all add: digit_char_def)
qed

lemma digits_are_digits:
  "0 \<le> n \<Longrightarrow> \<forall>c \<in> set (digits n). c \<noteq> CHR ''.'' \<and> c \<noteq> CHR ''-''"
proof (induction n rule: digits.induct)
  case (1 n)
  show ?case
  proof (cases "n < 10")
    case True
    with "1.prems" show ?thesis
      by (simp add: digits_small digit_char_is_digit)
  next
    case False
    with "1.prems" have "\<forall>c \<in> set (digits (n div 10)). c \<noteq> CHR ''.'' \<and> c \<noteq> CHR ''-''"
      by (intro "1.IH") simp_all
    moreover have "digit_char (n mod 10) \<noteq> CHR ''.'' \<and> digit_char (n mod 10) \<noteq> CHR ''-''"
      by (intro digit_char_is_digit) simp_all
    ultimately show ?thesis
      using False by (simp add: digits_step)
  qed
qed

lemma read_rounded_to_2_places:
  "read_2_places (rounded_to_2_places v) =
     (if v < 0 then - 1 else 1) * of_int \<lfloor>\<bar>v\<bar> * 100 + 1 / 2\<rfloor> / 100"
proof -
  define n where "n = \<lfloor>\<bar>v\<bar> * 100 + 1 / 2\<rfloor>"
  have n0: "0 \<le> n" by (simp add: n_def)
  let ?body = "digits (n div 100) @ ''.'' @ [digit_char (n div 10 mod 10), digit_char (n mod 10)]"
  let ?keep = "\<lambda>c. c \<noteq> CHR ''.'' \<and> c \<noteq> CHR ''-''"
  have r: "rounded_to_2_places v = (if v < 0 then ''-'' else []) @ ?body"
    by (simp add: rounded_to_2_places_def n_def Let_def)
  have hundreds: "\<forall>c \<in> set (digits (n div 100)). ?keep c"
    using n0 by (intro digits_are_digits) simp
  have d1: "?keep (digit_char (n div 10 mod 10))"
    by (intro digit_char_is_digit) simp_all
  have d0: "?keep (digit_char (n mod 10))"
    by (intro digit_char_is_digit) simp_all
  have "filter ?keep ?body = digits (n div 100) @ [digit_char (n div 10 mod 10), digit_char (n mod 10)]"
    using hundreds d1 d0 by (simp add: filter_id_conv)
  then have kept: "filter ?keep (rounded_to_2_places v) =
      (digits (n div 100) @ [digit_char (n div 10 mod 10)]) @ [digit_char (n mod 10)]"
    unfolding r by simp
  have "decimal_of (digits (n div 100)) = n div 100"
    using n0 by (intro decimal_of_digits) simp
  moreover have "of_char (digit_char (n div 10 mod 10)) - 48 = n div 10 mod 10"
    "of_char (digit_char (n mod 10)) - 48 = n mod 10"
    by (intro digit_char_value; simp)+
  ultimately have "decimal_of (filter ?keep (rounded_to_2_places v)) =
      10 * (10 * (n div 100) + n div 10 mod 10) + n mod 10"
    unfolding kept by (simp only: decimal_of_snoc)
  also have "\<dots> = n"
  proof -
    have a: "n div 100 = n div 10 div 10"
      by (simp add: div_mult2_eq [symmetric])
    have b: "10 * (n div 10 div 10) + n div 10 mod 10 = n div 10"
      by (rule mult_div_mod_eq)
    have c: "10 * (n div 10) + n mod 10 = n"
      by (rule mult_div_mod_eq)
    show ?thesis
      by (simp only: a b c)
  qed
  finally have read_n: "decimal_of (filter ?keep (rounded_to_2_places v)) = n" .
  from hundreds have "CHR ''-'' \<notin> set (digits (n div 100))"
    by blast
  moreover have "CHR ''-'' \<noteq> digit_char (n div 10 mod 10)"
    using conjunct2 [OF d1] by (rule not_sym)
  moreover have "CHR ''-'' \<noteq> digit_char (n mod 10)"
    using conjunct2 [OF d0] by (rule not_sym)
  ultimately have "CHR ''-'' \<notin> set ?body"
    by simp
  then have sign: "CHR ''-'' \<in> set (rounded_to_2_places v) \<longleftrightarrow> v < 0"
    unfolding r by simp
  have "read_2_places (rounded_to_2_places v) = (if v < 0 then - (of_int n / 100) else of_int n / 100)"
    by (simp only: read_2_places_def read_n sign Let_def)
  then show ?thesis
    unfolding n_def by simp
qed

lemma read_rounded_close: "\<bar>read_2_places (rounded_to_2_places v) - v\<bar> \<le> 1 / 200"
proof -
  define n :: rat where "n = of_int \<lfloor>\<bar>v\<bar> * 100 + 1 / 2\<rfloor>"
  have close: "\<bar>n / 100 - \<bar>v\<bar>\<bar> \<le> 1 / 200"
    unfolding n_def by (rule rounded_to_2_places_error)
  show ?thesis
  proof (cases "v < 0")
    case True
    then have "read_2_places (rounded_to_2_places v) - v = - (n / 100 - \<bar>v\<bar>)"
      by (simp add: read_rounded_to_2_places n_def)
    then have "\<bar>read_2_places (rounded_to_2_places v) - v\<bar> = \<bar>n / 100 - \<bar>v\<bar>\<bar>"
      by (simp only: abs_minus_cancel)
    with close show ?thesis by (simp only:)
  next
    case False
    then have "read_2_places (rounded_to_2_places v) - v = n / 100 - \<bar>v\<bar>"
      by (simp add: read_rounded_to_2_places n_def)
    with close show ?thesis by (simp only:)
  qed
qed

lemma rounded_has_point: "CHR ''.'' \<in> set (rounded_to_2_places v)"
  by (simp add: rounded_to_2_places_def Let_def)

lemma toFixed_2_close:
  assumes "\<bar>v\<bar> < 10 ^ 21"
  shows "\<bar>read_2_places (toFixed 2 (Finite v)) - v\<bar> \<le> 1 / 200"
  using assms by (simp only: toFixed_2_places read_rounded_close)

lemma getKeywordStats_found:
  assumes "prisma_keyword_findFirst s i cid = Some keyword"
  shows "getKeywordStats s i cid = (Inr (stats_object keyword), s)"
  using assms by (simp add: getKeywordStats_def getKeywordById_def)

lemma getKeywordStats_not_found:
  assumes "prisma_keyword_findFirst s i cid = None"
  shows "getKeywordStats s i cid = (Inl (NotFoundError ''Keyword not found''), s)"
  using assms by (simp add: getKeywordStats_def getKeywordById_def)

lemma example_numbers:
  "number_of_int 50 = Finite 50" "number_of_int 1000 = Finite 1000" "number_of_int 5 = Finite 5"
  "Number_of_decimal 25 = Finite 25" "Number_of_decimal 100 = Finite 100"
  by (simp_all add: number_of_int_def Number_of_decimal_def double_50 double_1000 double_5
        double_25 double_100)

lemma example_ratios:
  "js_mul (js_div (Finite 50) (Finite 1000)) (Finite 100) = Finite 5"
  "js_mul (js_div (Finite 5) (Finite 50)) (Finite 100) = Finite 10"
  "js_div (Finite 25) (Finite 50) = Finite (1 / 2)"
  "js_mul (js_div (Finite 25) (Finite 100)) (Finite 100) = Finite 25"
  using ctr_example cvr_example cpc_example acos_example
  by (simp_all only: example_numbers)

lemma stats_shoes:
  assumes "Keyword.impressions keyword = 1000" and "Keyword.clicks keyword = 50"
    and "Keyword.conversions keyword = 5" and "Keyword.spend keyword = 25"
    and "Keyword.sales keyword = 100"
  shows "ctr (stats_object keyword) = ''5.00''" and "cvr (stats_object keyword) = ''10.00''"
    and "cpc (stats_object keyword) = ''0.50''" and "acos (stats_object keyword) = ''25.00''"
  unfolding stats_object_def
  by (simp_all only: assms example_numbers example_ratios rendered_examples
        KeywordStats.simps js_positive.simps) simp_all

lemma stats_zero:
  assumes "Keyword.impressions keyword = 0" and "Keyword.clicks keyword = 0"
    and "Keyword.sales keyword = 0"
  shows "ctr (stats_object keyword) = ''0.00''" and "cvr (stats_object keyword) = ''0.00''"
    and "cpc (stats_object keyword) = ''0.00''" and "acos (stats_object keyword) = ''0.00''"
  using assms
  by (simp_all add: stats_object_def Number_of_decimal_def round_to_double_def)

lemma stats_guards:
  "ctr (stats_object keyword) =
     (if 0 < Keyword.impressions keyword
      then toFixed 2 (js_mul (js_div (number_of_int (Keyword.clicks keyword))
                                     (number_of_int (Keyword.impressions keyword)))
                             (Finite 100))
      else ''0.00'')"
  "cvr (stats_object keyword) =
     (if 0 < Keyword.clicks keyword
      then toFixed 2 (js_mul (js_div (number_of_int (Keyword.conversions keyword))
                                     (number_of_int (Keyword.clicks keyword)))
                             (Finite 100))
      else ''0.00'')"
  "cpc (stats_object keyword) =
     (if 0 < Keyword.clicks keyword
      then toFixed 2 (js_div (Number_of_decimal (Keyword.spend keyword))
                             (number_of_int (Keyword.clicks keyword)))
      else ''0.00'')"
  "acos (stats_object keyword) =
     (if js_positive (Number_of_decimal (Keyword.sales keyword))
      then toFixed 2 (js_mul (js_div (Number_of_decimal (Keyword.spend keyword))
                                     (Number_of_decimal (Keyword.sales keyword)))
                             (Finite 100))
      else ''0.00'')"
  by (simp_all add: stats_object_def)

text \<open>
  Claim C8, as the code has it. Once the keyword is found, \<open>getKeywordStats\<close> returns its
  statistics and never an error, and leaves the store alone. Each of \<open>ctr\<close>, \<open>cvr\<close>, \<open>cpc\<close>
  and \<open>acos\<close> is \<open>''0.00''\<close> when its guard fails (impressions, clicks, clicks and sales at
  most 0) and otherwise \<open>toFixed(2)\<close> of the ratio computed in double precision. Whenever
  that ratio is a finite number below \<open>10 ^ 21\<close> in magnitude, the string is the ratio
  rounded to two decimal places, and the number it denotes is within 1/200 of the ratio.
  The snapshot 1000, 50, 5, 25, 100 gives 5.00, 10.00, 0.50 and 25.00, and the all-zero
  snapshot gives 0.00 four times.
\<close>

theorem getKeywordStats_projection:
  assumes "prisma_keyword_findFirst s i cid = Some keyword"
    and "ctr_value = js_mul (js_div (number_of_int (Keyword.clicks keyword))
                                    (number_of_int (Keyword.impressions keyword))) (Finite 100)"
    and "cvr_value = js_mul (js_div (number_of_int (Keyword.conversions keyword))
                                    (number_of_int (Keyword.clicks keyword))) (Finite 100)"
    and "cpc_value = js_div (Number_of_decimal (Keyword.spend keyword))
                            (number_of_int (Keyword.clicks keyword))"
    and "acos_value = js_mul (js_div (Number_of_decimal (Keyword.spend keyword))
                                     (Number_of_decimal (Keyword.sales keyword))) (Finite 100)"
  shows "\<exists>stats. getKeywordStats s i cid = (Inr stats, s)
       \<and> ctr stats = (if 0 < Keyword.impressions keyword then toFixed 2 ctr_value else ''0.00'')
       \<and> cvr stats = (if 0 < Keyword.clicks keyword then toFixed 2 cvr_value else ''0.00'')
       \<and> cpc stats = (if 0 < Keyword.clicks keyword then toFixed 2 cpc_value else ''0.00'')
       \<and> acos stats = (if js_positive (Number_of_decimal (Keyword.sales keyword))
                        then toFixed 2 acos_value else ''0.00'')
       \<and> (Keyword.sales keyword \<le> 0 \<longrightarrow> acos stats = ''0.00'')
       \<and> (2 powi (- 1074) \<le> Keyword.sales keyword \<longrightarrow> acos stats = toFixed 2 acos_value)
       \<and> (\<forall>x \<in> {ctr_value, cvr_value, cpc_value, acos_value}.
             \<forall>v. x = Finite v \<and> \<bar>v\<bar> < 10 ^ 21 \<longrightarrow>
                 toFixed 2 x = rounded_to_2_places v
               \<and> \<bar>read_2_places (toFixed 2 x) - v\<bar> \<le> 1 / 200)
       \<and> (Keyword.impressions keyword = 1000 \<and> Keyword.clicks keyword = 50
            \<and> Keyword.conversions keyword = 5 \<and> Keyword.spend keyword = 25
            \<and> Keyword.sales keyword = 100 \<longrightarrow>
            ctr stats = ''5.00'' \<and> cvr stats = ''10.00'' \<and> cpc stats = ''0.50''
          \<and> acos stats = ''25.00'')
       \<and> (Keyword.impressions keyword = 0 \<and> Keyword.clicks keyword = 0
            \<and> Keyword.conversions keyword = 0 \<and> Keyword.spend keyword = 0
            \<and> Keyword.sales keyword = 0 \<longrightarrow>
            ctr stats = ''0.00'' \<and> cvr stats = ''0.00'' \<and> cpc stats = ''0.00''
          \<and> acos stats = ''0.00'')"
proof (intro exI [of _ "stats_object keyword"] conjI impI ballI allI)
  show "getKeywordStats s i cid = (Inr (stats_object keyword), s)"
    using assms(1) by (rule getKeywordStats_found)
  show "ctr (stats_object keyword) =
      (if 0 < Keyword.impressions keyword then toFixed 2 ctr_value else ''0.00'')"
    unfolding assms(2) by (rule stats_guards)
  show "cvr (stats_object keyword) =
      (if 0 < Keyword.clicks keyword then toFixed 2 cvr_value else ''0.00'')"
    unfolding assms(3) by (rule stats_guards)
  show "cpc (stats_object keyword) =
      (if 0 < Keyword.clicks keyword then toFixed 2 cpc_value else ''0.00'')"
    unfolding assms(4) by (rule stats_guards)
  show "acos (stats_object keyword) =
      (if js_positive (Number_of_decimal (Keyword.sales keyword))
       then toFixed 2 acos_value else ''0.00'')"
    unfolding assms(5) by (rule stats_guards)
  show "acos (stats_object keyword) = ''0.00''" if "Keyword.sales keyword \<le> 0"
    using round_to_double_nonpositive [OF that]
    by (simp add: stats_guards Number_of_decimal_def)
  show "acos (stats_object keyword) = toFixed 2 acos_value"
    if "2 powi (- 1074) \<le> Keyword.sales keyword"
    using round_to_double_positive [OF that]
    by (simp only: stats_guards Number_of_decimal_def assms(5) if_True)
  show "toFixed 2 x = rounded_to_2_places v"
    if "x \<in> {ctr_value, cvr_value, cpc_value, acos_value}" "x = Finite v \<and> \<bar>v\<bar> < 10 ^ 21" for x v
    using that(2) by (simp only: toFixed_2_places)
  show "\<bar>read_2_places (toFixed 2 x) - v\<bar> \<le> 1 / 200"
    if "x \<in> {ctr_value, cvr_value, cpc_value, acos_value}" "x = Finite v \<and> \<bar>v\<bar> < 10 ^ 21" for x v
    using that(2) by (simp only: toFixed_2_close)
  {
    assume shoes: "Keyword.impressions keyword = 1000 \<and> Keyword.clicks keyword = 50
            \<and> Keyword.conversions keyword = 5 \<and> Keyword.spend keyword = 25
            \<and> Keyword.sales keyword = 100"
    then show "ctr (stats_object keyword) = ''5.00''" "cvr (stats_object keyword) = ''10.00''"
      "cpc (stats_object keyword) = ''0.50''" "acos (stats_object keyword) = ''25.00''"
      by (simp_all only: stats_shoes)
  }
  {
    assume zero: "Keyword.impressions keyword = 0 \<and> Keyword.clicks keyword = 0
            \<and> Keyword.conversions keyword = 0 \<and> Keyword.spend keyword = 0
            \<and> Keyword.sales keyword = 0"
    then show "ctr (stats_object keyword) = ''0.00''" "cvr (stats_object keyword) = ''0.00''"
      "cpc (stats_object keyword) = ''0.00''" "acos (stats_object keyword) = ''0.00''"
      by (simp_all only: stats_zero)
  }
qed

theorem getKeywordStats_projection_witness:
  "(\<exists>stats. getKeywordStats demo_store 1 1 = (Inr stats, demo_store)
       \<and> ctr stats = ''5.00'' \<and> cvr stats = ''10.00'' \<and> cpc stats = ''0.50''
       \<and> acos stats = ''25.00'')
   \<and> (\<exists>stats. getKeywordStats demo_store 2 1 = (Inr stats, demo_store)
       \<and> ctr stats = ''0.00'' \<and> cvr stats = ''0.00'' \<and> cpc stats = ''0.00''
       \<and> acos stats = ''0.00'')
   \<and> toFixed 2 (js_div (Number_of_decimal 25) (number_of_int 50)) = rounded_to_2_places (1 / 2)
   \<and> \<bar>read_2_places (toFixed 2 (js_div (Number_of_decimal 25) (number_of_int 50))) - 1 / 2\<bar>
        \<le> 1 / 200"
proof -
  have shoes: "Keyword.impressions kw_shoes = 1000 \<and> Keyword.clicks kw_shoes = 50
            \<and> Keyword.conversions kw_shoes = 5 \<and> Keyword.spend kw_shoes = 25
            \<and> Keyword.sales kw_shoes = 100"
    by (simp add: kw_shoes_def)
  have free: "Keyword.impressions kw_free = 0 \<and> Keyword.clicks kw_free = 0
            \<and> Keyword.conversions kw_free = 0 \<and> Keyword.spend kw_free = 0
            \<and> Keyword.sales kw_free = 0"
    by (simp add: kw_free_def)
  have cpc: "js_div (Number_of_decimal (Keyword.spend kw_shoes))
                    (number_of_int (Keyword.clicks kw_shoes)) = Finite (1 / 2)"
    "\<bar>1 / 2 :: rat\<bar> < 10 ^ 21"
    using shoes by (simp_all add: cpc_example)
  note rule_shoes = getKeywordStats_projection [OF demo_store_findFirst(1) refl refl refl refl]
  note rule_free = getKeywordStats_projection [OF demo_store_findFirst(2) refl refl refl refl]
  from rule_shoes shoes have a: "\<exists>stats. getKeywordStats demo_store 1 1 = (Inr stats, demo_store)
       \<and> ctr stats = ''5.00'' \<and> cvr stats = ''10.00'' \<and> cpc stats = ''0.50''
       \<and> acos stats = ''25.00''"
    by blast
  from rule_free free have b: "\<exists>stats. getKeywordStats demo_store 2 1 = (Inr stats, demo_store)
       \<and> ctr stats = ''0.00'' \<and> cvr stats = ''0.00'' \<and> cpc stats = ''0.00''
       \<and> acos stats = ''0.00''"
    by blast
  from rule_shoes cpc have c:
    "toFixed 2 (js_div (Number_of_decimal (Keyword.spend kw_shoes))
                       (number_of_int (Keyword.clicks kw_shoes))) = rounded_to_2_places (1 / 2)
     \<and> \<bar>read_2_places (toFixed 2 (js_div (Number_of_decimal (Keyword.spend kw_shoes))
                       (number_of_int (Keyword.clicks kw_shoes)))) - 1 / 2\<bar> \<le> 1 / 200"
    by blast
  from shoes have eqs: "Keyword.spend kw_shoes = 25" "Keyword.clicks kw_shoes = 50"
    by simp_all
  note c' = c [unfolded eqs]
  from a b c' show ?thesis by blast
qed

lemma stats_fortune:
  "cpc (stats_object (kw_boots\<lparr> Keyword.spend := 1000000000000000000000 \<rparr>)) = ''1e+21''"
proof -
  have "Number_of_decimal 1000000000000000000000 = Finite 1000000000000000000000"
    by (simp only: Number_of_decimal_def double_1e21)
  moreover have "number_of_int 1 = Finite 1"
    by (simp add: number_of_int_def double_1)
  moreover have "js_div (Finite 1000000000000000000000) (Finite 1) = Finite 1000000000000000000000"
    by (simp add: double_1e21)
  ultimately show ?thesis
    by (simp add: stats_guards kw_boots_def toFixed_1e21)
qed

theorem getKeywordStats_counterexample:
  "getKeywordStats
      (demo_store\<lparr> keywordTable := [kw_boots\<lparr> Keyword.spend := 1000000000000000000000 \<rparr>] \<rparr>) 3 2
     = (Inr (stats_object (kw_boots\<lparr> Keyword.spend := 1000000000000000000000 \<rparr>)),
        demo_store\<lparr> keywordTable := [kw_boots\<lparr> Keyword.spend := 1000000000000000000000 \<rparr>] \<rparr>)
   \<and> 0 < Keyword.clicks (kw_boots\<lparr> Keyword.spend := 1000000000000000000000 \<rparr>)
   \<and> cpc (stats_object (kw_boots\<lparr> Keyword.spend := 1000000000000000000000 \<rparr>)) = ''1e+21''
   \<and> ''1e+21'' \<noteq> rounded_to_2_places (1000000000000000000000 / 1)"
proof -
  have "prisma_keyword_findFirst
      (demo_store\<lparr> keywordTable := [kw_boots\<lparr> Keyword.spend := 1000000000000000000000 \<rparr>] \<rparr>) 3 2
      = Some (kw_boots\<lparr> Keyword.spend := 1000000000000000000000 \<rparr>)"
    by (simp add: prisma_keyword_findFirst_def kw_boots_def)
  then have "getKeywordStats
      (demo_store\<lparr> keywordTable := [kw_boots\<lparr> Keyword.spend := 1000000000000000000000 \<rparr>] \<rparr>) 3 2
     = (Inr (stats_object (kw_boots\<lparr> Keyword.spend := 1000000000000000000000 \<rparr>)),
        demo_store\<lparr> keywordTable := [kw_boots\<lparr> Keyword.spend := 1000000000000000000000 \<rparr>] \<rparr>)"
    by (rule getKeywordStats_found)
  moreover have "0 < Keyword.clicks (kw_boots\<lparr> Keyword.spend := 1000000000000000000000 \<rparr>)"
    by (simp add: kw_boots_def)
  moreover have "''1e+21'' \<noteq> rounded_to_2_places (1000000000000000000000 / 1)"
  proof
    assume eq: "''1e+21'' = rounded_to_2_places (1000000000000000000000 / 1)"
    have "CHR ''.'' \<in> set ''1e+21''"
      unfolding eq by (rule rounded_has_point)
    then show False by simp
  qed
  ultimately show ?thesis
    using stats_fortune by blast
qed

end
